theory Spec2Isabelle
  imports Main "HOL-Library.Word" "HOL-Library.Multiset"
begin

unbundle bit_operations_syntax

section \<open>Data model of package rbxmesh\<close>

text \<open>
  A Go \<open>byte\<close> is an 8-bit word, a byte slice or a string is a list of bytes.
  A \<open>float64\<close> is kept as its IEEE-754 bit pattern (a 64-bit word), a \<open>float32\<close> as a
  32-bit word; Go's \<open>int\<close> is a mathematical integer here (the platform is taken to be
  a 64-bit one, and no arithmetic is done on indices).
\<close>

type_synonym byte = "8 word"
type_synonym f64 = "64 word"
type_synonym f32 = "32 word"
type_synonym vec3 = "f64 \<times> f64 \<times> f64"

definition bytes :: "string \<Rightarrow> byte list" where
  "bytes s = map of_char s"

datatype error =
    EOF
  | ErrBufferFull
  | ErrNoProgress
  | ErrShortWrite
  | ScanError
  | PanicIndex
  | UnknownVersion
  | UnexpectedHeaderSize
  | UnexpectedVertexSize
  | UnexpectedFaceSize
  | IndexOutOfRange

text \<open>\<open>type Version int\<close> with its four named constants.\<close>

type_synonym Version = int

definition VersionUnknown :: Version where "VersionUnknown = -1"
definition Version2_00 :: Version where "Version2_00 = 0"
definition Version1_00 :: Version where "Version1_00 = 1"
definition Version1_01 :: Version where "Version1_01 = 2"

definition Version_String :: "Version \<Rightarrow> byte list" where
  "Version_String v =
     (if v = Version1_00 then bytes ''version 1.00''
      else if v = Version1_01 then bytes ''version 1.01''
      else if v = Version2_00 then bytes ''version 2.00''
      else bytes ''version x.xx'')"

definition VersionFromString :: "byte list \<Rightarrow> Version" where
  "VersionFromString s =
     (if s = Version_String Version1_00 then Version1_00
      else if s = Version_String Version1_01 then Version1_01
      else if s = Version_String Version2_00 then Version2_00
      else VersionUnknown)"

record MeshVertex =
  Position :: vec3
  Normal :: vec3
  Texture :: vec3
  Color :: "byte \<times> byte \<times> byte \<times> byte"

type_synonym MeshFace = "int \<times> int \<times> int"

record Mesh =
  Version :: Version
  HasColor :: bool
  Vertices :: "MeshVertex list"
  Faces :: "MeshFace list"

definition nHeaderSize :: nat where "nHeaderSize = 2"
definition nHeader :: nat where "nHeader = nHeaderSize + 1 + 1 + 4 + 4"
definition nVertex :: nat where "nVertex = (4 + 4 + 4) + (4 + 4 + 4) + (4 + 4 + 4)"
definition nColor :: nat where "nColor = nVertex + (1 + 1 + 1 + 1)"
definition nFace :: nat where "nFace = 4 + 4 + 4"

definition zeroVertex :: MeshVertex where
  "zeroVertex = \<lparr>Position = (0, 0, 0), Normal = (0, 0, 0), Texture = (0, 0, 0),
                 Color = (0, 0, 0, 0)\<rparr>"

section \<open>The byte sink\<close>

text \<open>
  An \<open>io.Writer\<close> that keeps what it was given in \<open>wdata\<close>. With \<open>wroom = None\<close> it
  takes everything (a \<open>bytes.Buffer\<close>); with \<open>wroom = Some c\<close> it holds at most \<open>c\<close>
  bytes in all, and a write that does not fit stores the part that fits and reports it
  together with an error, as the contract of \<open>io.Writer\<close> asks.
\<close>

record writer =
  wdata :: "byte list"
  wroom :: "nat option"

definition Write :: "writer \<Rightarrow> byte list \<Rightarrow> nat \<times> error option \<times> writer" where
  "Write w p =
     (case wroom w of
        None \<Rightarrow> (length p, None, w\<lparr>wdata := wdata w @ p\<rparr>)
      | Some c \<Rightarrow>
          (let k = min (length p) (c - length (wdata w)) in
           (k, if k < length p then Some ErrShortWrite else None,
            w\<lparr>wdata := wdata w @ take k p\<rparr>)))"

section \<open>The byte source\<close>

text \<open>
  \<open>ReadFrom\<close> takes any \<open>io.Reader\<close>. A reader is modelled by what its successive
  \<open>Read\<close> calls hand out: a list of pieces, each with the error that comes with its last
  byte (\<open>None\<close> for \<open>nil\<close>). A \<open>Read\<close> into a slice shorter than the next piece takes the
  front of the piece and leaves the rest, with its error, to the next call; a piece
  without bytes and without error is a \<open>Read\<close> that returns \<open>0, nil\<close>; once the pieces
  are used up every \<open>Read\<close> returns \<open>0, io.EOF\<close>.
\<close>

type_synonym reader = "(byte list \<times> error option) list"

text \<open>
  \<open>bytes.NewReader(input)\<close>, the in-memory reader: it hands out as many of its
  remaining bytes as fit into the slice it is given, and \<open>io.EOF\<close> once none is left.
\<close>

definition bytes_Reader :: "byte list \<Rightarrow> reader" where
  "bytes_Reader input = (if input = [] then [] else [(input, None)])"

text \<open>
  A reader that hands out the given pieces one per \<open>Read\<close>, without error, as a
  network connection or a pipe does; \<open>iotest.OneByteReader\<close> over an in-memory reader
  is the instance whose pieces are the single bytes.
\<close>

definition pieces_Reader :: "byte list list \<Rightarrow> reader" where
  "pieces_Reader ps = map (\<lambda>p. (p, None)) ps"

definition OneByteReader :: "byte list \<Rightarrow> reader" where
  "OneByteReader input = pieces_Reader (map (\<lambda>c. [c]) input)"

text \<open>
  \<open>ReadFrom\<close> wraps the reader in a \<open>readReporter\<close>, which counts the bytes the reader
  hands out, and wraps that in a \<open>bufio.Reader\<close> with the default buffer of 4096 bytes.
  One record holds the three layers: \<open>src\<close> the reader, \<open>nread\<close> the counter of the
  \<open>readReporter\<close>, \<open>bufd\<close> the unread part \<open>buf[r:w]\<close> of the buffer and \<open>perr\<close> the
  error the buffer has pending.
\<close>

record bufreader =
  src :: reader
  nread :: nat
  bufd :: "byte list"
  perr :: "error option"

definition defaultBufSize :: nat where "defaultBufSize = 4096"

definition maxConsecutiveEmptyReads :: nat where "maxConsecutiveEmptyReads = 100"

definition NewReader :: "reader \<Rightarrow> bufreader" where
  "NewReader rd = \<lparr>src = rd, nread = 0, bufd = [], perr = None\<rparr>"

text \<open>\<open>readReporter.Read\<close> on a slice of length \<open>k\<close>.\<close>

definition rr_Read :: "bufreader \<Rightarrow> nat \<Rightarrow> byte list \<times> error option \<times> bufreader" where
  "rr_Read r k =
     (case src r of
        [] \<Rightarrow> ([], Some EOF, r)
      | (p, e) # rest \<Rightarrow>
          if length p \<le> k then (p, e, r\<lparr>src := rest, nread := nread r + length p\<rparr>)
          else (take k p, None, r\<lparr>src := (drop k p, e) # rest, nread := nread r + k\<rparr>))"

text \<open>
  \<open>bufio.Reader.fill\<close>, called only while the buffer is not full: it reads into the
  free part of the buffer until a read gives a byte or an error, at most
  \<open>maxConsecutiveEmptyReads\<close> times, and then gives up with \<open>io.ErrNoProgress\<close>.
\<close>

fun fill_loop :: "nat \<Rightarrow> bufreader \<Rightarrow> bufreader" where
  "fill_loop 0 r = r\<lparr>perr := Some ErrNoProgress\<rparr>"
| "fill_loop (Suc i) r =
     (case rr_Read r (defaultBufSize - length (bufd r)) of
        (bs, err, r') \<Rightarrow>
          (let r2 = r'\<lparr>bufd := bufd r' @ bs\<rparr> in
           if err \<noteq> None then r2\<lparr>perr := err\<rparr>
           else if bs \<noteq> [] then r2
           else fill_loop i r2))"

definition fill :: "bufreader \<Rightarrow> bufreader" where
  "fill r = fill_loop maxConsecutiveEmptyReads r"

text \<open>\<open>bufio.Reader.ReadSlice('\n')\<close>.\<close>

function ReadSlice :: "bufreader \<Rightarrow> byte list \<times> error option \<times> bufreader" where
  "ReadSlice r =
     (if 0x0A \<in> set (bufd r) then
        (let i = length (takeWhile (\<lambda>c. c \<noteq> 0x0A) (bufd r)) in
         (take (i + 1) (bufd r), None, r\<lparr>bufd := drop (i + 1) (bufd r)\<rparr>))
      else if perr r \<noteq> None then (bufd r, perr r, r\<lparr>bufd := [], perr := None\<rparr>)
      else if length (bufd r) \<ge> defaultBufSize then
        (bufd r, Some ErrBufferFull, r\<lparr>bufd := []\<rparr>)
      else ReadSlice (fill r))"
  by pat_completeness auto
termination
proof (relation "measure (\<lambda>r. if perr r \<noteq> None then 0
                                else 1 + sum_list (map (\<lambda>e. length (fst e)) (src r)))")
  show "wf (measure (\<lambda>r. if perr r \<noteq> None then 0
                           else 1 + sum_list (map (\<lambda>e. length (fst e)) (src r))))"
    by simp
next
  fix r :: bufreader
  assume "\<not> perr r \<noteq> None"
  have progress: "perr (fill_loop i q) = None \<Longrightarrow>
      sum_list (map (\<lambda>e. length (fst e)) (src (fill_loop i q)))
        < sum_list (map (\<lambda>e. length (fst e)) (src q))" for i q
  proof (induction i arbitrary: q)
    case 0
    then show ?case by simp
  next
    case (Suc i)
    show ?case
    proof (cases "src q")
      case Nil
      with Suc.prems show ?thesis by (simp add: rr_Read_def)
    next
      case (Cons pe rest)
      obtain p e where pe: "pe = (p, e)" by (cases pe)
      show ?thesis
      proof (cases "length p \<le> defaultBufSize - length (bufd q)")
        case True
        show ?thesis
        proof (cases "e = None \<and> p = []")
          case True
          with \<open>length p \<le> defaultBufSize - length (bufd q)\<close> Cons pe Suc.prems
          have "perr (fill_loop i (q\<lparr>src := rest, nread := nread q, bufd := bufd q\<rparr>)) = None"
            by (simp add: rr_Read_def)
          from Suc.IH [OF this] True Cons pe show ?thesis
            by (simp add: rr_Read_def)
        next
          case False
          with \<open>length p \<le> defaultBufSize - length (bufd q)\<close> Cons pe Suc.prems show ?thesis
            by (auto simp: rr_Read_def Let_def split: if_splits)
        qed
      next
        case False
        show ?thesis
        proof (cases "defaultBufSize - length (bufd q) = 0")
          case True
          with False Cons pe Suc.prems
          have "perr (fill_loop i (q\<lparr>src := (p, e) # rest, nread := nread q, bufd := bufd q\<rparr>)) = None"
            by (simp add: rr_Read_def)
          from Suc.IH [OF this] True False Cons pe show ?thesis
            by (simp add: rr_Read_def)
        next
          case nz: False
          from False have "p \<noteq> []" by auto
          with nz False Cons pe show ?thesis
            by (auto simp: rr_Read_def Let_def)
        qed
      qed
    qed
  qed
  from progress [of maxConsecutiveEmptyReads r]
  show "(fill r, r) \<in> measure (\<lambda>r. if perr r \<noteq> None then 0
                                     else 1 + sum_list (map (\<lambda>e. length (fst e)) (src r)))"
    using \<open>\<not> perr r \<noteq> None\<close> by (auto simp: fill_def)
qed

declare ReadSlice.simps [simp del]

text \<open>
  \<open>bufio.Reader.ReadLine\<close>; the codec discards its second result \<open>isPrefix\<close>, so the
  model returns the line and the error only.
\<close>

definition ReadLine :: "bufreader \<Rightarrow> byte list \<times> error option \<times> bufreader" where
  "ReadLine r =
     (case ReadSlice r of
        (line, err, r1) \<Rightarrow>
          if err = Some ErrBufferFull then
            (if line \<noteq> [] \<and> last line = 0x0D
             then (butlast line, None, r1\<lparr>bufd := [0x0D]\<rparr>)
             else (line, None, r1))
          else if line = [] then ([], err, r1)
          else if last line = 0x0A then
            (if length line > 1 \<and> line ! (length line - 2) = 0x0D
             then (take (length line - 2) line, None, r1)
             else (take (length line - 1) line, None, r1))
          else (line, None, r1))"

text \<open>
  \<open>bufio.Reader.Read(p)\<close> with \<open>len(p) = k\<close>: the bytes copied into \<open>p\<close>, which can
  be fewer than \<open>k\<close>, and the error.
\<close>

definition bufio_Read :: "bufreader \<Rightarrow> nat \<Rightarrow> byte list \<times> error option \<times> bufreader" where
  "bufio_Read r k =
     (if k = 0 then
        (if bufd r \<noteq> [] then ([], None, r) else ([], perr r, r\<lparr>perr := None\<rparr>))
      else if bufd r = [] then
        (if perr r \<noteq> None then ([], perr r, r\<lparr>perr := None\<rparr>)
         else if k \<ge> defaultBufSize then rr_Read r k
         else
           (case rr_Read r defaultBufSize of
              (bs, err, r') \<Rightarrow>
                if bs = [] then ([], err, r')
                else (take k bs, None, r'\<lparr>bufd := drop k bs, perr := err\<rparr>)))
      else (take k (bufd r), None, r\<lparr>bufd := drop k (bufd r)\<rparr>))"

text \<open>
  \<open>buf.Read(b[lo:hi])\<close> as the decoder calls it: the bytes read overwrite the start of
  the slice, the rest of the array keeps what it held, and the count is dropped.
\<close>

definition read_into ::
  "bufreader \<Rightarrow> byte list \<Rightarrow> nat \<Rightarrow> nat \<Rightarrow> byte list \<times> error option \<times> bufreader" where
  "read_into r b lo hi =
     (case bufio_Read r (hi - lo) of
        (bs, err, r') \<Rightarrow> (take lo b @ bs @ drop (lo + length bs) b, err, r'))"

section \<open>Library functions the encoder and the decoder call\<close>

text \<open>
  The floating-point work of the codec is done by the Go language and its library:
  the conversions \<open>float32(x)\<close> and \<open>float64(x)\<close>, the float64 subtraction and
  multiplication, the \<open>%f\<close> verb of \<open>fmt.Fprintf\<close> on a float32, and \<open>fmt.Fscanf\<close>
  with the format \<open>[%f,%f,%f][%f,%f,%f][%f,%f,%f]\<close> on the buffered reader, which gives
  the nine numbers or an error and leaves the reader advanced. They are parameters of
  the model, collected in one record, and every theorem below holds for all of them.
\<close>

record golib =
  to_f32 :: "f64 \<Rightarrow> f32"
  of_f32 :: "f32 \<Rightarrow> f64"
  fsub :: "f64 \<Rightarrow> f64 \<Rightarrow> f64"
  fmul :: "f64 \<Rightarrow> f64 \<Rightarrow> f64"
  fmt_f :: "f32 \<Rightarrow> byte list"
  Fscanf :: "bufreader \<Rightarrow> (error + vec3 \<times> vec3 \<times> vec3) \<times> bufreader"

text \<open>The float64 constants \<open>1\<close>, \<open>2\<close> and \<open>0.5\<close> of the source.\<close>

definition f64_1 :: f64 where "f64_1 = 0x3FF0000000000000"
definition f64_2 :: f64 where "f64_2 = 0x4000000000000000"
definition f64_half :: f64 where "f64_half = 0x3FE0000000000000"

text \<open>
  \<open>strconv.AppendUint(b, n, base)\<close>: the digits of \<open>n\<close> in the given base, most
  significant first, from \<open>0123456789abcdefghijklmnopqrstuvwxyz\<close>. The bases the
  library accepts are 2 to 36 (it panics on any other; the codec passes a constant).
\<close>

definition digit_char :: "nat \<Rightarrow> byte" where
  "digit_char d = (bytes ''0123456789abcdefghijklmnopqrstuvwxyz'') ! d"

function formatBits :: "nat \<Rightarrow> nat \<Rightarrow> byte list" where
  "formatBits n base =
     (if base < 2 \<or> 36 < base then []
      else if n < base then [digit_char n]
      else formatBits (n div base) base @ [digit_char (n mod base)])"
  by pat_completeness auto
termination
  by (relation "measure fst") auto

definition AppendUint :: "byte list \<Rightarrow> nat \<Rightarrow> nat \<Rightarrow> byte list" where
  "AppendUint b n base = b @ formatBits n base"

text \<open>\<open>binary.LittleEndian.PutUint16\<close> and \<open>PutUint32\<close> into a buffer at an offset.\<close>

definition put16 :: "byte list \<Rightarrow> nat \<Rightarrow> 16 word \<Rightarrow> byte list" where
  "put16 b off v = b[off := ucast v, off + 1 := ucast (drop_bit 8 v)]"

definition put32 :: "byte list \<Rightarrow> nat \<Rightarrow> 32 word \<Rightarrow> byte list" where
  "put32 b off v =
     b[off := ucast v, off + 1 := ucast (drop_bit 8 v),
       off + 2 := ucast (drop_bit 16 v), off + 3 := ucast (drop_bit 24 v)]"

section \<open>The encoder: \<open>Mesh.WriteTo\<close>\<close>

text \<open>
  \<open>fmt.Fprintf(w, "[%f,%f,%f][%f,%f,%f][%f,%f,%f]", ...)\<close> formats the whole corner and
  hands it to the writer in one \<open>Write\<close>.
\<close>

definition fmt_vec :: "golib \<Rightarrow> f32 \<Rightarrow> f32 \<Rightarrow> f32 \<Rightarrow> byte list" where
  "fmt_vec L a b c =
     bytes ''['' @ fmt_f L a @ bytes '','' @ fmt_f L b @ bytes '','' @ fmt_f L c @ bytes '']''"

definition corner_text :: "golib \<Rightarrow> Version \<Rightarrow> MeshVertex \<Rightarrow> byte list" where
  "corner_text L ver v =
     (case Position v of (p0, p1, p2) \<Rightarrow>
      case Normal v of (n0, n1, n2) \<Rightarrow>
      case Texture v of (t0, t1, t2) \<Rightarrow>
        (let (q0, q1, q2) =
               (if ver = Version1_00
                then (fmul L p0 f64_2, fmul L p1 f64_2, fmul L p2 f64_2)
                else (p0, p1, p2))
         in fmt_vec L (to_f32 L q0) (to_f32 L q1) (to_f32 L q2)
          @ fmt_vec L (to_f32 L n0) (to_f32 L n1) (to_f32 L n2)
          @ fmt_vec L (to_f32 L t0) (to_f32 L (fsub L f64_1 t1)) (to_f32 L t2)))"

text \<open>
  The inner loop \<open>for i := 0; i < len(face); i++\<close> over the indices of one face, and the
  outer loop over the faces. \<open>n\<close> is the running byte count.
\<close>

fun write_corners ::
  "golib \<Rightarrow> Mesh \<Rightarrow> int list \<Rightarrow> nat \<Rightarrow> writer \<Rightarrow> nat \<times> error option \<times> writer" where
  "write_corners L m [] n w = (n, None, w)"
| "write_corners L m (index # rest) n w =
     (if index < 0 \<or> index \<ge> int (length (Vertices m)) then (n, Some IndexOutOfRange, w)
      else
        (case Write w (corner_text L (Version m) (Vertices m ! nat index)) of
           (nn, err, w') \<Rightarrow>
             if err \<noteq> None then (n + nn, err, w')
             else write_corners L m rest (n + nn) w'))"

fun write_text_faces ::
  "golib \<Rightarrow> Mesh \<Rightarrow> MeshFace list \<Rightarrow> nat \<Rightarrow> writer \<Rightarrow> nat \<times> error option \<times> writer" where
  "write_text_faces L m [] n w = (n, None, w)"
| "write_text_faces L m ((i0, i1, i2) # faces) n w =
     (case write_corners L m [i0, i1, i2] n w of
        (n', err, w') \<Rightarrow>
          if err \<noteq> None then (n', err, w')
          else write_text_faces L m faces n' w')"

text \<open>
  The binary path reuses one 40-byte array \<open>b\<close> and reslices it; the array is the list
  \<open>b\<close> here and the slice written is a prefix of it.
\<close>

definition putvec :: "golib \<Rightarrow> byte list \<Rightarrow> nat \<Rightarrow> vec3 \<Rightarrow> byte list" where
  "putvec L b off v =
     (case v of (x, y, z) \<Rightarrow>
        put32 (put32 (put32 b off (to_f32 L x)) (off + 4) (to_f32 L y)) (off + 8) (to_f32 L z))"

definition put_color :: "byte list \<Rightarrow> byte \<times> byte \<times> byte \<times> byte \<Rightarrow> byte list" where
  "put_color b c = (case c of (r, g, bl, a) \<Rightarrow> b[36 := r, 37 := g, 38 := bl, 39 := a])"

fun write_vertices ::
  "golib \<Rightarrow> bool \<Rightarrow> byte list \<Rightarrow> MeshVertex list \<Rightarrow> nat \<Rightarrow> writer
     \<Rightarrow> byte list \<times> nat \<times> error option \<times> writer" where
  "write_vertices L hc b [] n w = (b, n, None, w)"
| "write_vertices L hc b (vertex # vs) n w =
     (let b1 = putvec L b 0 (Position vertex);
          b2 = putvec L b1 12 (Normal vertex);
          b3 = putvec L b2 24 (Texture vertex);
          b4 = (if hc then put_color b3 (Color vertex) else b3)
      in case Write w (take (if hc then nColor else nVertex) b4) of
           (nn, err, w') \<Rightarrow>
             if err \<noteq> None then (b4, n + nn, err, w')
             else write_vertices L hc b4 vs (n + nn) w')"

fun write_faces ::
  "byte list \<Rightarrow> MeshFace list \<Rightarrow> nat \<Rightarrow> writer \<Rightarrow> nat \<times> error option \<times> writer" where
  "write_faces b [] n w = (n, None, w)"
| "write_faces b ((i0, i1, i2) # faces) n w =
     (let b1 = put32 b 0 (word_of_int i0);
          b2 = put32 b1 4 (word_of_int i1);
          b3 = put32 b2 8 (word_of_int i2)
      in case Write w (take nFace b3) of
           (nn, err, w') \<Rightarrow>
             if err \<noteq> None then (n + nn, err, w')
             else write_faces b3 faces (n + nn) w')"

definition binary_header :: "Mesh \<Rightarrow> byte list" where
  "binary_header m =
     (let b0 = replicate nColor 0;
          b1 = put16 b0 0 (of_nat nHeader);
          b2 = (if HasColor m then put16 b1 2 (of_nat nColor) else put16 b1 2 (of_nat nVertex));
          b3 = put16 b2 4 (of_nat nFace);
          b4 = put32 b3 6 (of_nat (length (Vertices m)))
      in put32 b4 10 (of_nat (length (Faces m))))"

definition WriteTo :: "golib \<Rightarrow> Mesh \<Rightarrow> writer \<Rightarrow> nat \<times> error option \<times> writer" where
  "WriteTo L m w =
     (case Write w (Version_String (Version m) @ bytes ''\<newline>'') of
        (nn, err, w1) \<Rightarrow>
          if err \<noteq> None then (nn, err, w1)
          else if Version m = Version1_00 \<or> Version m = Version1_01 then
            (case Write w1 (AppendUint [] (length (Faces m)) 32 @ bytes ''\<newline>'') of
               (nn2, err2, w2) \<Rightarrow>
                 if err2 \<noteq> None then (nn + nn2, err2, w2)
                 else write_text_faces L m (Faces m) (nn + nn2) w2)
          else if Version m = Version2_00 then
            (let b = binary_header m in
             case Write w1 (take nHeader b) of
               (nn2, err2, w2) \<Rightarrow>
                 if err2 \<noteq> None then (nn + nn2, err2, w2)
                 else
                   (case write_vertices L (HasColor m) b (Vertices m) (nn + nn2) w2 of
                      (b', n3, err3, w3) \<Rightarrow>
                        if err3 \<noteq> None then (n3, err3, w3)
                        else write_faces b' (Faces m) n3 w3))
          else (0, Some UnknownVersion, w1))"

section \<open>The decoder: \<open>Mesh.ReadFrom\<close>\<close>

subsection \<open>Text formats\<close>

text \<open>
  \<open>strconv.Atoi\<close> on a run of ASCII digits, its error dropped as the decoder drops it:
  the empty string gives 0 (a syntax error), a value beyond the largest \<open>int\<close> gives
  that largest \<open>int\<close> (a range error).
\<close>

definition is_digit :: "byte \<Rightarrow> bool" where
  "is_digit c = (0x30 \<le> c \<and> c \<le> 0x39)"

definition decimal :: "byte list \<Rightarrow> nat" where
  "decimal ds = foldl (\<lambda>a c. 10 * a + (unat c - 48)) 0 ds"

definition Atoi :: "byte list \<Rightarrow> nat" where
  "Atoi ds = (if ds = [] then 0 else min (decimal ds) (2 ^ 63 - 1))"

text \<open>
  Go's \<open>==\<close> on \<open>float64\<close>, on the bit patterns: a NaN equals nothing, itself
  included, and the two zeros equal each other. \<open>==\<close> on \<open>MeshVertex\<close> compares field
  by field and component by component; it is the equality of the keys of
  \<open>map[MeshVertex]int\<close>.
\<close>

definition isNaN :: "f64 \<Rightarrow> bool" where
  "isNaN a = (0x7FF0000000000000 < (a AND 0x7FFFFFFFFFFFFFFF))"

definition feq :: "f64 \<Rightarrow> f64 \<Rightarrow> bool" where
  "feq a b = (\<not> isNaN a \<and> \<not> isNaN b
              \<and> (a = b \<or> (a AND 0x7FFFFFFFFFFFFFFF = 0 \<and> b AND 0x7FFFFFFFFFFFFFFF = 0)))"

definition vec_eq :: "vec3 \<Rightarrow> vec3 \<Rightarrow> bool" where
  "vec_eq u v =
     (case u of (a0, a1, a2) \<Rightarrow> case v of (b0, b1, b2) \<Rightarrow> feq a0 b0 \<and> feq a1 b1 \<and> feq a2 b2)"

definition vertex_eq :: "MeshVertex \<Rightarrow> MeshVertex \<Rightarrow> bool" where
  "vertex_eq u v =
     (vec_eq (Position u) (Position v) \<and> vec_eq (Normal u) (Normal v)
      \<and> vec_eq (Texture u) (Texture v) \<and> Color u = Color v)"

text \<open>
  The map \<open>verts\<close> is the list of its entries in the order they were added. A lookup
  finds the entry whose key is \<open>==\<close> to the given one; an assignment replaces the value
  of that entry, or adds an entry when there is none.
\<close>

type_synonym vertmap = "(MeshVertex \<times> int) list"

definition map_lookup :: "vertmap \<Rightarrow> MeshVertex \<Rightarrow> int option" where
  "map_lookup verts v = map_option snd (find (\<lambda>e. vertex_eq (fst e) v) verts)"

definition map_assign :: "vertmap \<Rightarrow> MeshVertex \<Rightarrow> int \<Rightarrow> vertmap" where
  "map_assign verts v i =
     (if map_lookup verts v = None then verts @ [(v, i)]
      else map (\<lambda>e. if vertex_eq (fst e) v then (fst e, i) else e) verts)"

text \<open>What the loop body does to the scanned numbers before the lookup.\<close>

definition corner_vertex :: "golib \<Rightarrow> Version \<Rightarrow> vec3 \<times> vec3 \<times> vec3 \<Rightarrow> MeshVertex" where
  "corner_vertex L version c =
     (case c of ((p0, p1, p2), nrm, (t0, t1, t2)) \<Rightarrow>
        \<lparr>Position =
           (if version = Version1_00
            then (fmul L p0 f64_half, fmul L p1 f64_half, fmul L p2 f64_half)
            else (p0, p1, p2)),
         Normal = nrm,
         Texture = (t0, fsub L f64_1 t1, t2),
         Color = (0, 0, 0, 0)\<rparr>)"

definition set_index :: "MeshFace \<Rightarrow> nat \<Rightarrow> int \<Rightarrow> MeshFace" where
  "set_index face f index =
     (case face of (i0, i1, i2) \<Rightarrow>
        if f = 0 then (index, i1, i2) else if f = 1 then (i0, index, i2) else (i0, i1, index))"

text \<open>
  The state of the two nested loops: the map, the face list being filled in and the
  reader. \<open>read_corners\<close> is the inner loop over the corners \<open>f\<close> of face \<open>i\<close>,
  \<open>read_faces\<close> the outer loop over \<open>i\<close>. An error of the scanner ends both.
\<close>

type_synonym textstate = "vertmap \<times> MeshFace list \<times> bufreader"

fun read_corners ::
  "golib \<Rightarrow> Version \<Rightarrow> nat \<Rightarrow> nat list \<Rightarrow> textstate \<Rightarrow> error option \<times> textstate" where
  "read_corners L version i [] st = (None, st)"
| "read_corners L version i (f # fs) (verts, faces, r) =
     (case Fscanf L r of
        (Inl e, r') \<Rightarrow> (Some e, (verts, faces, r'))
      | (Inr c, r') \<Rightarrow>
          (let v = corner_vertex L version c in
           case map_lookup verts v of
             Some index \<Rightarrow>
               read_corners L version i fs (verts, faces[i := set_index (faces ! i) f index], r')
           | None \<Rightarrow>
               (let index = int (length verts);
                    verts' = map_assign verts v index
                in read_corners L version i fs
                     (verts', faces[i := set_index (faces ! i) f index], r'))))"

fun read_faces ::
  "golib \<Rightarrow> Version \<Rightarrow> nat list \<Rightarrow> textstate \<Rightarrow> error option \<times> textstate" where
  "read_faces L version [] st = (None, st)"
| "read_faces L version (i # is) st =
     (case read_corners L version i [0, 1, 2] st of
        (Some e, st') \<Rightarrow> (Some e, st')
      | (None, st') \<Rightarrow> read_faces L version is st')"

text \<open>
  The last loop, \<open>for vert, index := range verts { m.Vertices[index] = vert }\<close>.
  An index outside the slice would panic. Go leaves the order of a range over a map
  open; the model visits the entries in the order they were added, and lemma
  \<open>store_vertices_any_order\<close> shows that any other order gives the same list.
\<close>

fun store_vertices :: "MeshVertex list \<Rightarrow> vertmap \<Rightarrow> MeshVertex list option" where
  "store_vertices vs [] = Some vs"
| "store_vertices vs ((vert, index) # es) =
     (if index < 0 \<or> index \<ge> int (length vs) then None
      else store_vertices (vs[nat index := vert]) es)"

definition read_text ::
  "golib \<Rightarrow> Version \<Rightarrow> Mesh \<Rightarrow> bufreader \<Rightarrow> nat \<times> error option \<times> Mesh" where
  "read_text L version m r =
     (case ReadLine r of
        (line, err, r1) \<Rightarrow>
          if err \<noteq> None then (nread r1, err, m)
          else
            (let n = Atoi (takeWhile is_digit line);
                 m1 = m\<lparr>Faces := replicate n (0, 0, 0)\<rparr>
             in case read_faces L version [0..<n] ([], Faces m1, r1) of
                  (Some e, (verts, faces, r2)) \<Rightarrow> (nread r2, Some e, m1\<lparr>Faces := faces\<rparr>)
                | (None, (verts, faces, r2)) \<Rightarrow>
                    (case store_vertices (replicate (length verts) zeroVertex) verts of
                       None \<Rightarrow> (nread r2, Some PanicIndex, m1\<lparr>Faces := faces\<rparr>)
                     | Some vs \<Rightarrow> (nread r2, None, m1\<lparr>Faces := faces, Vertices := vs\<rparr>))))"

subsection \<open>Binary format\<close>

text \<open>\<open>binary.LittleEndian.Uint16\<close> and \<open>Uint32\<close> of the bytes of \<open>b\<close> from an offset.\<close>

definition Uint16 :: "byte list \<Rightarrow> nat \<Rightarrow> 16 word" where
  "Uint16 b off = ucast (b ! off) OR push_bit 8 (ucast (b ! (off + 1)))"

definition Uint32 :: "byte list \<Rightarrow> nat \<Rightarrow> 32 word" where
  "Uint32 b off =
     ucast (b ! off) OR push_bit 8 (ucast (b ! (off + 1)))
       OR push_bit 16 (ucast (b ! (off + 2))) OR push_bit 24 (ucast (b ! (off + 3)))"

definition vec :: "golib \<Rightarrow> byte list \<Rightarrow> nat \<Rightarrow> vec3" where
  "vec L b off =
     (of_f32 L (Uint32 b off), of_f32 L (Uint32 b (off + 4)), of_f32 L (Uint32 b (off + 8)))"

text \<open>
  \<open>for i, v := range m.Vertices\<close>: \<open>v\<close> is a copy of element \<open>i\<close>, its fields are
  overwritten from the buffer and it is stored back. The loop state is the array \<open>b\<close>,
  the vertex list and the reader.
\<close>

fun read_vertices ::
  "golib \<Rightarrow> bool \<Rightarrow> nat list \<Rightarrow> byte list \<times> MeshVertex list \<times> bufreader
     \<Rightarrow> error option \<times> byte list \<times> MeshVertex list \<times> bufreader" where
  "read_vertices L hc [] st = (None, st)"
| "read_vertices L hc (i # is) (b, vs, r) =
     (case read_into r b 0 (if hc then nColor else nVertex) of
        (b', err, r') \<Rightarrow>
          if err \<noteq> None then (err, (b', vs, r'))
          else
            (let v = vs ! i;
                 v1 = v\<lparr>Position := vec L b' 0, Normal := vec L b' 12, Texture := vec L b' 24\<rparr>;
                 v2 = (if hc then v1\<lparr>Color := (b' ! 36, b' ! 37, b' ! 38, b' ! 39)\<rparr> else v1)
             in read_vertices L hc is (b', vs[i := v2], r')))"

fun read_bin_faces ::
  "nat list \<Rightarrow> byte list \<times> MeshFace list \<times> bufreader
     \<Rightarrow> error option \<times> byte list \<times> MeshFace list \<times> bufreader" where
  "read_bin_faces [] st = (None, st)"
| "read_bin_faces (i # is) (b, fs, r) =
     (case read_into r b 0 nFace of
        (b', err, r') \<Rightarrow>
          if err \<noteq> None then (err, (b', fs, r'))
          else
            (let f = (uint (Uint32 b' 0), uint (Uint32 b' 4), uint (Uint32 b' 8))
             in read_bin_faces is (b', fs[i := f], r')))"

definition read_binary :: "golib \<Rightarrow> Mesh \<Rightarrow> bufreader \<Rightarrow> nat \<times> error option \<times> Mesh" where
  "read_binary L m r =
     (let b = replicate nColor 0 in
      case read_into r b 0 nHeaderSize of
        (b1, err, r1) \<Rightarrow>
          if err \<noteq> None then (nread r1, err, m)
          else if unat (Uint16 b1 0) = nHeader then
            (case read_into r1 b1 nHeaderSize (nHeader - nHeaderSize) of
               (b2, err2, r2) \<Rightarrow>
                 if err2 \<noteq> None then (nread r2, err2, m)
                 else if unat (b2 ! 2) \<noteq> nVertex \<and> unat (b2 ! 2) \<noteq> nColor
                 then (nread r2, Some UnexpectedVertexSize, m)
                 else
                   (let m1 = m\<lparr>HasColor := (unat (b2 ! 2) = nColor)\<rparr> in
                    if unat (b2 ! 3) \<noteq> nFace then (nread r2, Some UnexpectedFaceSize, m1)
                    else
                      (let m2 = m1\<lparr>Vertices := replicate (unat (Uint32 b2 4)) zeroVertex,
                                     Faces := replicate (unat (Uint32 b2 8)) (0, 0, 0)\<rparr>
                       in case read_vertices L (HasColor m2) [0..<length (Vertices m2)]
                                 (b2, Vertices m2, r2) of
                            (Some e, (b3, vs, r3)) \<Rightarrow> (nread r3, Some e, m2\<lparr>Vertices := vs\<rparr>)
                          | (None, (b3, vs, r3)) \<Rightarrow>
                              (case read_bin_faces [0..<length (Faces m2)] (b3, Faces m2, r3) of
                                 (Some e, (b4, fs, r4)) \<Rightarrow>
                                   (nread r4, Some e, m2\<lparr>Vertices := vs, Faces := fs\<rparr>)
                               | (None, (b4, fs, r4)) \<Rightarrow>
                                   (nread r4, None, m2\<lparr>Vertices := vs, Faces := fs\<rparr>)))))
          else (nread r1, Some UnexpectedHeaderSize, m))"

subsection \<open>The two revisions of \<open>ReadFrom\<close>\<close>

text \<open>
  \<open>src/mesh.go\<close>: the version read from the signature line selects the path and is
  not stored; the text path leaves \<open>HasColor\<close> as it finds it.
\<close>

definition ReadFrom :: "golib \<Rightarrow> Mesh \<Rightarrow> reader \<Rightarrow> nat \<times> error option \<times> Mesh" where
  "ReadFrom L m rd =
     (case ReadLine (NewReader rd) of
        (line, err, r1) \<Rightarrow>
          if err \<noteq> None then (nread r1, err, m)
          else
            (let version = VersionFromString line in
             if version = Version1_00 \<or> version = Version1_01 then read_text L version m r1
             else if version = Version2_00 then read_binary L m r1
             else (nread r1, Some UnknownVersion, m)))"

text \<open>
  \<open>src/unnamed/part_000\<close>: the same function with \<open>m.Version = version\<close> before the
  switch and \<open>m.HasColor = false\<close> at the head of the text path.
\<close>

definition ReadFrom_part_000 ::
  "golib \<Rightarrow> Mesh \<Rightarrow> reader \<Rightarrow> nat \<times> error option \<times> Mesh" where
  "ReadFrom_part_000 L m rd =
     (case ReadLine (NewReader rd) of
        (line, err, r1) \<Rightarrow>
          if err \<noteq> None then (nread r1, err, m)
          else
            (let version = VersionFromString line;
                 m0 = m\<lparr>Version := version\<rparr>
             in
             if version = Version1_00 \<or> version = Version1_01
             then read_text L version (m0\<lparr>HasColor := False\<rparr>) r1
             else if version = Version2_00 then read_binary L m0 r1
             else (nread r1, Some UnknownVersion, m0)))"

section \<open>An instance of the library for the examples\<close>

text \<open>
  The examples below need the library at a few values. The instance agrees with Go on
  the float64 values 0, 0.5, 1, 2 and NaN (\<open>math.NaN()\<close>, the value \<open>strconv.ParseFloat\<close>
  gives for the text \<open>NaN\<close>), on their float32 forms, and on corner texts whose numbers
  are written \<open>0\<close>, \<open>0.5\<close>, \<open>1\<close>, \<open>2\<close> or \<open>NaN\<close> and lie in the buffer; the examples
  use nothing else. The general theorems do not depend on it.
\<close>

definition f64_NaN :: f64 where "f64_NaN = 0x7FF8000000000001"

definition ex_to_f32 :: "f64 \<Rightarrow> f32" where
  "ex_to_f32 x =
     (if x = 0 then 0 else if x = f64_half then 0x3F000000 else if x = f64_1 then 0x3F800000
      else if x = f64_2 then 0x40000000 else 0x7FC00000)"

definition ex_of_f32 :: "f32 \<Rightarrow> f64" where
  "ex_of_f32 x =
     (if x = 0 then 0 else if x = 0x3F000000 then f64_half else if x = 0x3F800000 then f64_1
      else if x = 0x40000000 then f64_2 else 0x7FF8000000000000)"

definition ex_fsub :: "f64 \<Rightarrow> f64 \<Rightarrow> f64" where
  "ex_fsub a b =
     (if a = f64_1 \<and> b = 0 then f64_1 else if a = f64_1 \<and> b = f64_half then f64_half
      else if a = f64_1 \<and> b = f64_1 then 0 else f64_NaN)"

definition ex_fmul :: "f64 \<Rightarrow> f64 \<Rightarrow> f64" where
  "ex_fmul a b =
     (if a = 0 \<and> (b = f64_2 \<or> b = f64_half) then 0
      else if a = f64_half \<and> b = f64_2 then f64_1
      else if a = f64_1 \<and> b = f64_2 then f64_2
      else if a = f64_1 \<and> b = f64_half then f64_half
      else if a = f64_2 \<and> b = f64_half then f64_1
      else f64_NaN)"

definition ex_fmt_f :: "f32 \<Rightarrow> byte list" where
  "ex_fmt_f x =
     (if x = 0 then bytes ''0.000000'' else if x = 0x3F000000 then bytes ''0.500000''
      else if x = 0x3F800000 then bytes ''1.000000''
      else if x = 0x40000000 then bytes ''2.000000'' else bytes ''NaN'')"

definition ex_number :: "byte list \<Rightarrow> (f64 \<times> byte list) option" where
  "ex_number s =
     (if take 3 s = bytes ''NaN'' then Some (f64_NaN, drop 3 s)
      else if take 3 s = bytes ''0.5'' then Some (f64_half, drop 3 s)
      else if take 1 s = bytes ''0'' then Some (0, drop 1 s)
      else if take 1 s = bytes ''1'' then Some (f64_1, drop 1 s)
      else if take 1 s = bytes ''2'' then Some (f64_2, drop 1 s)
      else None)"

definition ex_lit :: "string \<Rightarrow> byte list \<Rightarrow> byte list option" where
  "ex_lit c s = (if take 1 s = bytes c then Some (drop 1 s) else None)"

definition ex_triple :: "byte list \<Rightarrow> (vec3 \<times> byte list) option" where
  "ex_triple s =
     Option.bind (ex_lit ''['' s) (\<lambda>s1.
     Option.bind (ex_number s1) (\<lambda>(a, s2).
     Option.bind (ex_lit '','' s2) (\<lambda>s3.
     Option.bind (ex_number s3) (\<lambda>(b, s4).
     Option.bind (ex_lit '','' s4) (\<lambda>s5.
     Option.bind (ex_number s5) (\<lambda>(c, s6).
     Option.bind (ex_lit '']'' s6) (\<lambda>s7. Some ((a, b, c), s7))))))))"

definition ex_Fscanf :: "bufreader \<Rightarrow> (error + vec3 \<times> vec3 \<times> vec3) \<times> bufreader" where
  "ex_Fscanf r =
     (let r1 = (if bufd r = [] \<and> perr r = None then fill r else r) in
      case Option.bind (ex_triple (bufd r1)) (\<lambda>(p, s1).
           Option.bind (ex_triple s1) (\<lambda>(n, s2).
           Option.bind (ex_triple s2) (\<lambda>(t, s3). Some ((p, n, t), s3)))) of
        None \<Rightarrow> (Inl ScanError, r1)
      | Some (c, rest) \<Rightarrow> (Inr c, r1\<lparr>bufd := rest\<rparr>))"

definition exampleLib :: golib where
  "exampleLib = \<lparr>to_f32 = ex_to_f32, of_f32 = ex_of_f32, fsub = ex_fsub, fmul = ex_fmul,
                  fmt_f = ex_fmt_f, Fscanf = ex_Fscanf\<rparr>"

text \<open>A \<open>bytes.Buffer\<close> to write to, and a fresh \<open>Mesh{}\<close> to decode into.\<close>

definition emptyBuffer :: writer where
  "emptyBuffer = \<lparr>wdata = [], wroom = None\<rparr>"

definition emptyMesh :: Mesh where
  "emptyMesh = \<lparr>Version = Version2_00, HasColor = False, Vertices = [], Faces = []\<rparr>"

section \<open>Notions used in the statements\<close>

text \<open>
  The indices of a face list in the order the text encoder visits them, the test the
  text encoder makes on each, and the text of a run of corners.
\<close>

definition in_range :: "Mesh \<Rightarrow> int \<Rightarrow> bool" where
  "in_range m i = (0 \<le> i \<and> i < int (length (Vertices m)))"

definition face_corners :: "MeshFace list \<Rightarrow> int list" where
  "face_corners faces = concat (map (\<lambda>(i0, i1, i2). [i0, i1, i2]) faces)"

definition corners_text :: "golib \<Rightarrow> Mesh \<Rightarrow> int list \<Rightarrow> byte list" where
  "corners_text L m idxs =
     concat (map (\<lambda>i. corner_text L (Version m) (Vertices m ! nat i)) idxs)"

text \<open>The four bytes of a 32-bit value, least significant first, and a face record.\<close>

definition le32 :: "32 word \<Rightarrow> byte list" where
  "le32 v = [ucast v, ucast (drop_bit 8 v), ucast (drop_bit 16 v), ucast (drop_bit 24 v)]"

definition face_bytes :: "MeshFace \<Rightarrow> byte list" where
  "face_bytes f =
     (case f of (i0, i1, i2) \<Rightarrow>
        le32 (word_of_int i0) @ le32 (word_of_int i1) @ le32 (word_of_int i2))"

text \<open>Meshes for the examples.\<close>

definition ex_unknown_mesh :: Mesh where
  "ex_unknown_mesh =
     \<lparr>Version = VersionUnknown, HasColor = False, Vertices = [zeroVertex], Faces = [(0, 0, 0)]\<rparr>"

definition ex_ten_faces_mesh :: Mesh where
  "ex_ten_faces_mesh =
     \<lparr>Version = Version1_01, HasColor = False, Vertices = [zeroVertex],
      Faces = [(0, 0, 0), (0, 0, 0), (0, 0, 0), (0, 0, 0), (0, 0, 0),
               (0, 0, 0), (0, 0, 0), (0, 0, 0), (0, 0, 0), (0, 0, 0)]\<rparr>"

definition ex_bad_corner_mesh :: Mesh where
  "ex_bad_corner_mesh =
     \<lparr>Version = Version1_01, HasColor = False, Vertices = [zeroVertex], Faces = [(0, 0, 5)]\<rparr>"

definition ex_binary_mesh :: Mesh where
  "ex_binary_mesh =
     \<lparr>Version = Version2_00, HasColor = False, Vertices = [zeroVertex], Faces = [(5, 0, 7)]\<rparr>"

definition ex_roundtrip_mesh :: Mesh where
  "ex_roundtrip_mesh =
     \<lparr>Version = Version2_00, HasColor = False, Vertices = [zeroVertex], Faces = [(0, 0, 0)]\<rparr>"

text \<open>The version that \<open>ReadFrom\<close> reads from the first line a reader delivers.\<close>

definition input_version :: "reader \<Rightarrow> Version" where
  "input_version rd = VersionFromString (fst (ReadLine (NewReader rd)))"

text \<open>A mesh whose colour flag is set, as one that has decoded a coloured binary file.\<close>

definition ex_colored_mesh :: Mesh where
  "ex_colored_mesh = \<lparr>Version = Version2_00, HasColor = True, Vertices = [], Faces = []\<rparr>"

text \<open>
  The body of the corner loop without the reader: \<open>intern\<close> is the lookup in \<open>verts\<close>
  with the assignment of the next index when the lookup fails, \<open>intern_all\<close> runs it
  over a list of vertices and collects the indices.
\<close>

definition intern :: "vertmap \<Rightarrow> MeshVertex \<Rightarrow> vertmap \<times> int" where
  "intern verts v =
     (case map_lookup verts v of
        Some index \<Rightarrow> (verts, index)
      | None \<Rightarrow> (map_assign verts v (int (length verts)), int (length verts)))"

fun intern_all :: "vertmap \<Rightarrow> MeshVertex list \<Rightarrow> vertmap \<times> int list" where
  "intern_all verts [] = (verts, [])"
| "intern_all verts (v # vs) =
     (case intern verts v of
        (verts1, idx) \<Rightarrow>
          (case intern_all verts1 vs of (verts2, idxs) \<Rightarrow> (verts2, idx # idxs)))"

text \<open>
  The vertices that the first \<open>k\<close> calls of \<open>fmt.Fscanf\<close> give, after the
  post-processing of the loop body, up to the first call that fails; \<open>text_corners\<close> is
  that list for a whole input, the stream of face corners of a text-format file.
\<close>

fun corner_stream ::
  "golib \<Rightarrow> Version \<Rightarrow> nat \<Rightarrow> bufreader \<Rightarrow> MeshVertex list \<times> bufreader" where
  "corner_stream L version 0 r = ([], r)"
| "corner_stream L version (Suc k) r =
     (case Fscanf L r of
        (Inl e, r') \<Rightarrow> ([], r')
      | (Inr c, r') \<Rightarrow>
          (case corner_stream L version k r' of
             (cs, r'') \<Rightarrow> (corner_vertex L version c # cs, r'')))"

definition text_corners :: "golib \<Rightarrow> reader \<Rightarrow> MeshVertex list" where
  "text_corners L rd =
     (case ReadLine (NewReader rd) of
        (line, err, r1) \<Rightarrow>
          (case ReadLine r1 of
             (line2, err2, r2) \<Rightarrow>
               fst (corner_stream L (VersionFromString line)
                      (3 * Atoi (takeWhile is_digit line2)) r2)))"

text \<open>
  The distinct elements of a list in the order of their first occurrence, and the
  property of \<open>verts\<close> that the index stored with each key is its position.
\<close>

definition first_occurrences :: "'a list \<Rightarrow> 'a list" where
  "first_occurrences xs = rev (remdups (rev xs))"

definition ordered :: "vertmap \<Rightarrow> bool" where
  "ordered verts = (map snd verts = map int [0..<length verts])"

text \<open>
  A float64 that is neither a NaN nor the negative zero; on such values, and on
  vertices made of them, Go's \<open>==\<close> is identity of the bit pattern.
\<close>

definition plain :: "f64 \<Rightarrow> bool" where
  "plain a = (\<not> isNaN a \<and> a \<noteq> 0x8000000000000000)"

definition plain_vec :: "vec3 \<Rightarrow> bool" where
  "plain_vec u = (case u of (a, b, c) \<Rightarrow> plain a \<and> plain b \<and> plain c)"

definition plain_vertex :: "MeshVertex \<Rightarrow> bool" where
  "plain_vertex v = (plain_vec (Position v) \<and> plain_vec (Normal v) \<and> plain_vec (Texture v))"

text \<open>
  Two text-format files of one face. The corners of the first are \<open>a\<close>, \<open>b\<close>, \<open>a\<close>;
  the three corners of the second are the same text, with \<open>NaN\<close> as first coordinate.
\<close>

definition ex_text_input :: "byte list" where
  "ex_text_input = bytes ''version 1.01\<newline>1\<newline>[0,0,0][0,0,0][0,0,0][1,0,0][0,0,0][0,0,0][0,0,0][0,0,0][0,0,0]''"

definition ex_nan_input :: "byte list" where
  "ex_nan_input = bytes ''version 1.01\<newline>1\<newline>[NaN,0,0][0,0,0][0,0,0][NaN,0,0][0,0,0][0,0,0][NaN,0,0][0,0,0][0,0,0]''"

definition ex_vertex_a :: MeshVertex where
  "ex_vertex_a = \<lparr>Position = (0, 0, 0), Normal = (0, 0, 0), Texture = (0, f64_1, 0),
                   Color = (0, 0, 0, 0)\<rparr>"

definition ex_vertex_b :: MeshVertex where
  "ex_vertex_b = \<lparr>Position = (f64_1, 0, 0), Normal = (0, 0, 0), Texture = (0, f64_1, 0),
                   Color = (0, 0, 0, 0)\<rparr>"

definition ex_vertex_nan :: MeshVertex where
  "ex_vertex_nan = \<lparr>Position = (f64_NaN, 0, 0), Normal = (0, 0, 0), Texture = (0, f64_1, 0),
                     Color = (0, 0, 0, 0)\<rparr>"

section \<open>Facts about the encoder\<close>

lemmas version_defs =
  Version_String_def VersionFromString_def
  Version1_00_def Version1_01_def Version2_00_def VersionUnknown_def

lemmas example_defs =
  exampleLib_def ex_to_f32_def ex_of_f32_def ex_fsub_def ex_fmul_def ex_fmt_f_def
  f64_1_def f64_2_def f64_half_def f64_NaN_def emptyBuffer_def emptyMesh_def

lemma Write_unlimited:
  "wroom w = None \<Longrightarrow> Write w p = (length p, None, w\<lparr>wdata := wdata w @ p\<rparr>)"
  by (simp add: Write_def)

lemma write_corners_unlimited:
  "wroom w = None \<Longrightarrow>
   write_corners L m idxs n w =
     (n + length (corners_text L m (takeWhile (in_range m) idxs)),
      if list_all (in_range m) idxs then None else Some IndexOutOfRange,
      w\<lparr>wdata := wdata w @ corners_text L m (takeWhile (in_range m) idxs)\<rparr>)"
proof (induction idxs arbitrary: n w)
  case Nil
  then show ?case by (simp add: corners_text_def)
next
  case (Cons i idxs)
  show ?case
  proof (cases "in_range m i")
    case True
    let ?w = "w\<lparr>wdata := wdata w @ corner_text L (Version m) (Vertices m ! nat i)\<rparr>"
    have "wroom ?w = None" using Cons.prems by simp
    from Cons.IH [OF this] True Cons.prems show ?thesis
      by (simp add: Write_unlimited in_range_def corners_text_def)
  next
    case False
    then show ?thesis by (auto simp: in_range_def corners_text_def)
  qed
qed

lemma write_text_faces_unlimited:
  "wroom w = None \<Longrightarrow>
   write_text_faces L m faces n w =
     (n + length (corners_text L m (takeWhile (in_range m) (face_corners faces))),
      if list_all (in_range m) (face_corners faces) then None else Some IndexOutOfRange,
      w\<lparr>wdata := wdata w @ corners_text L m (takeWhile (in_range m) (face_corners faces))\<rparr>)"
proof (induction faces arbitrary: n w)
  case Nil
  then show ?case by (simp add: corners_text_def face_corners_def)
next
  case (Cons f faces)
  obtain i0 i1 i2 where f: "f = (i0, i1, i2)" by (cases f) auto
  let ?out = "corners_text L m (takeWhile (in_range m) [i0, i1, i2])"
  let ?w = "w\<lparr>wdata := wdata w @ ?out\<rparr>"
  have w': "wroom ?w = None" using Cons.prems by simp
  have fc: "face_corners (f # faces) = [i0, i1, i2] @ face_corners faces"
    by (simp add: face_corners_def f)
  show ?case
  proof (cases "list_all (in_range m) [i0, i1, i2]")
    case True
    then have tw: "takeWhile (in_range m) ([i0, i1, i2] @ face_corners faces)
         = [i0, i1, i2] @ takeWhile (in_range m) (face_corners faces)"
      by simp
    have ct: "corners_text L m ([i0, i1, i2] @ takeWhile (in_range m) (face_corners faces))
       = corners_text L m [i0, i1, i2] @ corners_text L m (takeWhile (in_range m) (face_corners faces))"
      by (simp add: corners_text_def)
    have tw3: "takeWhile (in_range m) [i0, i1, i2] = [i0, i1, i2]" using True by simp
    show ?thesis
      unfolding fc tw ct
      using True Cons.IH [OF w'] 
      by (simp add: f write_corners_unlimited [OF Cons.prems] tw3 del: write_corners.simps)
  next
    case False
    then have tw: "takeWhile (in_range m) ([i0, i1, i2] @ face_corners faces)
         = takeWhile (in_range m) [i0, i1, i2]"
      by auto
    show ?thesis
      unfolding fc tw
      using False
      by (auto simp add: f write_corners_unlimited [OF Cons.prems] simp del: write_corners.simps)
  qed
qed

lemma WriteTo_text_unlimited:
  assumes "Version m = Version1_00 \<or> Version m = Version1_01" and "wroom w = None"
  shows "WriteTo L m w =
     (let out = Version_String (Version m) @ bytes ''\<newline>''
                @ AppendUint [] (length (Faces m)) 32 @ bytes ''\<newline>''
                @ corners_text L m (takeWhile (in_range m) (face_corners (Faces m)))
      in (length out,
          if list_all (in_range m) (face_corners (Faces m)) then None else Some IndexOutOfRange,
          w\<lparr>wdata := wdata w @ out\<rparr>))"
  using assms
  by (simp add: WriteTo_def Write_unlimited write_text_faces_unlimited Let_def)

lemma WriteTo_unknown_unlimited:
  assumes "Version m \<noteq> Version1_00" "Version m \<noteq> Version1_01" "Version m \<noteq> Version2_00"
    and "wroom w = None"
  shows "WriteTo L m w = (0, Some UnknownVersion, w\<lparr>wdata := wdata w @ bytes ''version x.xx\<newline>''\<rparr>)"
  using assms
  by (simp add: WriteTo_def Write_unlimited Version_String_def bytes_def)

lemma length_put32 [simp]: "length (put32 b off v) = length b"
  by (simp add: put32_def)

lemma length_put16 [simp]: "length (put16 b off v) = length b"
  by (simp add: put16_def)

lemma take_put32_faces:
  assumes "12 \<le> length b"
  shows "take nFace (put32 (put32 (put32 b 0 x) 4 y) 8 z) = le32 x @ le32 y @ le32 z"
proof (rule nth_equalityI)
  show "length (take nFace (put32 (put32 (put32 b 0 x) 4 y) 8 z)) = length (le32 x @ le32 y @ le32 z)"
    using assms by (simp add: nFace_def le32_def)
next
  fix k assume "k < length (take nFace (put32 (put32 (put32 b 0 x) 4 y) 8 z))"
  then have "k < 12" by (simp add: nFace_def)
  then consider (x0) "k = 0" | (x1) "k = 1" | (x2) "k = 2" | (x3) "k = 3"
    | (y0) "k = 4" | (y1) "k = 5" | (y2) "k = 6" | (y3) "k = 7"
    | (z0) "k = 8" | (z1) "k = 9" | (z2) "k = 10" | (z3) "k = 11"
    by atomize_elim arith
  moreover have "\<And>j. j < 12 \<Longrightarrow> j < length b" using assms by simp
  moreover have "b \<noteq> []" using assms by auto
  ultimately show "take nFace (put32 (put32 (put32 b 0 x) 4 y) 8 z) ! k = (le32 x @ le32 y @ le32 z) ! k"
    by cases (simp_all add: nFace_def put32_def le32_def nth_list_update)
qed

lemma write_faces_unlimited:
  "wroom w = None \<Longrightarrow> 12 \<le> length b \<Longrightarrow>
   write_faces b faces n w =
     (n + 12 * length faces, None, w\<lparr>wdata := wdata w @ concat (map face_bytes faces)\<rparr>)"
proof (induction faces arbitrary: b n w)
  case Nil
  then show ?case by simp
next
  case (Cons f faces)
  obtain i0 i1 i2 where f: "f = (i0, i1, i2)" by (cases f) auto
  let ?b = "put32 (put32 (put32 b 0 (word_of_int i0)) 4 (word_of_int i1)) 8 (word_of_int i2)"
  let ?w = "w\<lparr>wdata := wdata w @ face_bytes f\<rparr>"
  have tk: "take 12 ?b = face_bytes f"
    using Cons.prems take_put32_faces [of b] by (simp add: face_bytes_def f nFace_def)
  have len: "length (face_bytes f) = 12" by (simp add: face_bytes_def f le32_def)
  have "wroom ?w = None" "12 \<le> length ?b" using Cons.prems by simp_all
  from Cons.IH [OF this] show ?case
    using Cons.prems by (simp add: f Let_def tk Write_unlimited len nFace_def)
qed

subsection \<open>The binary path\<close>

lemma Write_error: "Write w p = (k, e, w') \<Longrightarrow> e = None \<or> e = Some ErrShortWrite"
  by (auto simp: Write_def Let_def split: option.splits if_splits)

lemma write_faces_error:
  "write_faces b faces n w = (k, e, w') \<Longrightarrow> e = None \<or> e = Some ErrShortWrite"
proof (induction faces arbitrary: b n w)
  case Nil
  then show ?case by simp
next
  case (Cons f faces)
  obtain i0 i1 i2 where f: "f = (i0, i1, i2)" by (cases f) auto
  let ?b = "put32 (put32 (put32 b 0 (word_of_int i0)) 4 (word_of_int i1)) 8 (word_of_int i2)"
  obtain nn err w1 where W: "Write w (take nFace ?b) = (nn, err, w1)"
    by (cases "Write w (take nFace ?b)") auto
  show ?case
  proof (cases "err = None")
    case True
    with Cons.prems W have "write_faces ?b faces (n + nn) w1 = (k, e, w')"
      by (simp add: f Let_def)
    then show ?thesis by (rule Cons.IH)
  next
    case False
    with Cons.prems W have "e = err" by (simp add: f Let_def)
    with Write_error [OF W] show ?thesis by simp
  qed
qed

lemma write_vertices_error:
  "write_vertices L hc b vs n w = (b', k, e, w') \<Longrightarrow> e = None \<or> e = Some ErrShortWrite"
proof (induction vs arbitrary: b n w)
  case Nil
  then show ?case by simp
next
  case (Cons v vs)
  let ?b3 = "putvec L (putvec L (putvec L b 0 (Position v)) 12 (Normal v)) 24 (Texture v)"
  let ?b4 = "if hc then put_color ?b3 (Color v) else ?b3"
  obtain nn err w1 where W: "Write w (take (if hc then nColor else nVertex) ?b4) = (nn, err, w1)"
    by (cases "Write w (take (if hc then nColor else nVertex) ?b4)") auto
  show ?case
  proof (cases "err = None")
    case True
    with Cons.prems W have "write_vertices L hc ?b4 vs (n + nn) w1 = (b', k, e, w')"
      by (simp add: Let_def)
    then show ?thesis by (rule Cons.IH)
  next
    case False
    with Cons.prems W have "e = err" by (simp add: Let_def)
    with Write_error [OF W] show ?thesis by simp
  qed
qed

lemma length_putvec [simp]: "length (putvec L b off v) = length b"
  by (cases v) (simp add: putvec_def)

lemma length_put_color [simp]: "length (put_color b c) = length b"
  by (cases c) (simp add: put_color_def)

lemma write_vertices_unlimited:
  "wroom w = None \<Longrightarrow> length b = nColor \<Longrightarrow>
   \<exists>out b'. write_vertices L hc b vs n w = (b', n + length out, None, w\<lparr>wdata := wdata w @ out\<rparr>)
      \<and> length out = (if hc then nColor else nVertex) * length vs \<and> length b' = nColor"
proof (induction vs arbitrary: b n w)
  case Nil
  then show ?case by simp
next
  case (Cons v vs)
  let ?b3 = "putvec L (putvec L (putvec L b 0 (Position v)) 12 (Normal v)) 24 (Texture v)"
  let ?b4 = "if hc then put_color ?b3 (Color v) else ?b3"
  let ?p = "take (if hc then nColor else nVertex) ?b4"
  let ?w = "w\<lparr>wdata := wdata w @ ?p\<rparr>"
  have lb: "length ?b4 = nColor" using Cons.prems by simp
  have lp: "length ?p = (if hc then nColor else nVertex)"
    using lb by (simp add: nColor_def nVertex_def)
  have "wroom ?w = None" using Cons.prems by simp
  from Cons.IH [OF this lb, of "n + length ?p"]
  obtain out b' where
    IH: "write_vertices L hc ?b4 vs (n + length ?p) ?w = (b', n + length ?p + length out, None, ?w\<lparr>wdata := wdata ?w @ out\<rparr>)"
    and lo: "length out = (if hc then nColor else nVertex) * length vs" and lb': "length b' = nColor"
    by blast
  have "write_vertices L hc b (v # vs) n w = (b', n + length (?p @ out), None, w\<lparr>wdata := wdata w @ (?p @ out)\<rparr>)"
    using IH Cons.prems(1) by (simp add: Let_def Write_unlimited)
  moreover have "length (?p @ out) = (if hc then nColor else nVertex) * length (v # vs)"
    using lp lo by simp
  ultimately show ?case using lb' by blast
qed

lemma length_binary_header [simp]: "length (binary_header m) = nColor"
  by (simp add: binary_header_def Let_def)

lemma WriteTo_binary_unlimited:
  assumes "Version m = Version2_00" and "wroom w = None"
  shows "\<exists>vbytes.
           WriteTo L m w =
             (13 + 12 + length vbytes + 12 * length (Faces m), None,
              w\<lparr>wdata := wdata w @ Version_String Version2_00 @ bytes ''\<newline>''
                    @ take nHeader (binary_header m) @ vbytes
                    @ concat (map face_bytes (Faces m))\<rparr>)
           \<and> length vbytes = (if HasColor m then nColor else nVertex) * length (Vertices m)"
proof -
  let ?sig = "Version_String Version2_00 @ bytes ''\<newline>''"
  let ?hdr = "take nHeader (binary_header m)"
  let ?w1 = "w\<lparr>wdata := wdata w @ ?sig\<rparr>"
  let ?w2 = "?w1\<lparr>wdata := wdata ?w1 @ ?hdr\<rparr>"
  have ls: "length ?sig = 13" by (simp add: version_defs bytes_def)
  have lh: "length ?hdr = 12" by (simp add: nHeader_def nHeaderSize_def nColor_def nVertex_def)
  have w2: "wroom ?w2 = None" using assms by simp
  from write_vertices_unlimited [OF w2 length_binary_header, of L "HasColor m" m "Vertices m" "13 + 12"]
  obtain vbytes b' where
    V: "write_vertices L (HasColor m) (binary_header m) (Vertices m) (13 + 12) ?w2
          = (b', 13 + 12 + length vbytes, None, ?w2\<lparr>wdata := wdata ?w2 @ vbytes\<rparr>)"
    and lv: "length vbytes = (if HasColor m then nColor else nVertex) * length (Vertices m)"
    and lb: "length b' = nColor"
    by blast
  let ?w3 = "?w2\<lparr>wdata := wdata ?w2 @ vbytes\<rparr>"
  have w3: "wroom ?w3 = None" using assms by simp
  have b12: "12 \<le> length b'" using lb by (simp add: nColor_def nVertex_def)
  note F = write_faces_unlimited [OF w3 b12, of "Faces m" "13 + 12 + length vbytes"]
  have ne: "Version2_00 \<noteq> Version1_00" "Version2_00 \<noteq> Version1_01"
    by (simp_all add: version_defs)
  have "WriteTo L m w =
      (13 + 12 + length vbytes + 12 * length (Faces m), None,
       w\<lparr>wdata := wdata w @ ?sig @ ?hdr @ vbytes @ concat (map face_bytes (Faces m))\<rparr>)"
    using assms ne ls lh V F
    by (simp add: WriteTo_def Write_unlimited Let_def)
  with lv show ?thesis by (intro exI [of _ vbytes]) simp
qed

lemma WriteTo_binary_error:
  assumes "Version m = Version2_00"
  shows "fst (snd (WriteTo L m w)) = None \<or> fst (snd (WriteTo L m w)) = Some ErrShortWrite"
proof -
  have ne: "Version2_00 \<noteq> Version1_00" "Version2_00 \<noteq> Version1_01"
    by (simp_all add: version_defs)
  obtain n1 e1 w1 where W1: "Write w (Version_String (Version m) @ bytes ''\<newline>'') = (n1, e1, w1)"
    by (cases "Write w (Version_String (Version m) @ bytes ''\<newline>'')") auto
  obtain n2 e2 w2 where W2: "Write w1 (take nHeader (binary_header m)) = (n2, e2, w2)"
    by (cases "Write w1 (take nHeader (binary_header m))") auto
  obtain b3 n3 e3 w3 where
    W3: "write_vertices L (HasColor m) (binary_header m) (Vertices m) (n1 + n2) w2 = (b3, n3, e3, w3)"
    by (cases "write_vertices L (HasColor m) (binary_header m) (Vertices m) (n1 + n2) w2") auto
  obtain n4 e4 w4 where W4: "write_faces b3 (Faces m) n3 w3 = (n4, e4, w4)"
    by (cases "write_faces b3 (Faces m) n3 w3") auto
  have "fst (snd (WriteTo L m w)) \<in> {e1, e2, e3, e4}"
    using assms ne W1 W2 W3 W4 by (simp add: WriteTo_def Let_def)
  then show ?thesis
    using Write_error [OF W1] Write_error [OF W2] write_vertices_error [OF W3]
      write_faces_error [OF W4] by auto
qed

lemma Uint32_le32: "Uint32 (le32 v) 0 = v"
proof (rule bit_word_eqI)
  fix n assume "n < LENGTH(32)"
  then have n: "n < 32" by simp
  consider "n < 8" | "8 \<le> n" "n < 16" | "16 \<le> n" "n < 24" | "24 \<le> n" by linarith
  then show "bit (Uint32 (le32 v) 0) n = bit v n"
    using n by cases (auto simp: Uint32_def le32_def bit_simps)
qed

lemma uint_word_of_int_32: "0 \<le> i \<Longrightarrow> i < 2 ^ 32 \<Longrightarrow> uint (word_of_int i :: 32 word) = i"
  by (simp add: uint_word_of_int take_bit_int_eq_self)

section \<open>Claims about \<open>WriteTo\<close>\<close>

text \<open>
  Claim C5. For a mesh whose version is none of the three known ones, \<open>WriteTo\<close> writes
  the placeholder signature line, fails with the unknown-version error before any payload
  byte, and the count it returns is the number of bytes written, the length of the
  signature line. The code ends with \<open>return 0, errors.New("unknown version")\<close>: on the
  mesh below, whose version is \<open>VersionUnknown\<close>, the thirteen bytes of the line are in the
  buffer, nothing else is, and the count returned is 0.
\<close>

theorem C5_unknown_version_returns_zero:
  "WriteTo exampleLib ex_unknown_mesh emptyBuffer =
     (0, Some UnknownVersion, \<lparr>wdata = bytes ''version x.xx\<newline>'', wroom = None\<rparr>)
   \<and> length (bytes ''version x.xx\<newline>'') = 13"
  by (simp add: WriteTo_def Write_def ex_unknown_mesh_def emptyBuffer_def version_defs bytes_def)

text \<open>
  Claim C2. For a mesh of version 1.00 or 1.01, \<open>WriteTo\<close> writes the face count in
  decimal digits and a newline right after the signature line. The code calls
  \<open>strconv.AppendUint(b, uint64(len(m.Faces)), 32)\<close>, whose last argument is the base:
  a mesh of ten faces is encoded without error and its count line is \<open>a\<close>, not \<open>10\<close>.
\<close>

theorem C2_face_count_in_base_32:
  "fst (snd (WriteTo exampleLib ex_ten_faces_mesh emptyBuffer)) = None
   \<and> take 15 (wdata (snd (snd (WriteTo exampleLib ex_ten_faces_mesh emptyBuffer))))
       = bytes ''version 1.01\<newline>a\<newline>''
   \<and> formatBits 10 10 = bytes ''10''"
proof -
  have v: "Version ex_ten_faces_mesh = Version1_00 \<or> Version ex_ten_faces_mesh = Version1_01"
    by (simp add: ex_ten_faces_mesh_def)
  have w: "wroom emptyBuffer = None"
    by (simp add: emptyBuffer_def)
  have ok: "list_all (in_range ex_ten_faces_mesh) (face_corners (Faces ex_ten_faces_mesh))"
    by (simp add: ex_ten_faces_mesh_def face_corners_def in_range_def)
  have cnt: "AppendUint [] (length (Faces ex_ten_faces_mesh)) 32 = bytes ''a''"
    by (simp add: ex_ten_faces_mesh_def AppendUint_def digit_char_def bytes_def)
  have sig: "Version_String (Version ex_ten_faces_mesh) = bytes ''version 1.01''"
    by (simp add: ex_ten_faces_mesh_def version_defs)
  have dec: "formatBits 10 10 = bytes ''10''"
    by (simp add: digit_char_def bytes_def)
  have eq: "WriteTo exampleLib ex_ten_faces_mesh emptyBuffer =
      (let out = bytes ''version 1.01'' @ bytes ''\<newline>'' @ bytes ''a'' @ bytes ''\<newline>''
                 @ corners_text exampleLib ex_ten_faces_mesh
                     (takeWhile (in_range ex_ten_faces_mesh)
                        (face_corners (Faces ex_ten_faces_mesh)))
       in (length out, None, emptyBuffer\<lparr>wdata := wdata emptyBuffer @ out\<rparr>))"
    using ok by (simp add: WriteTo_text_unlimited [OF v w] Let_def cnt sig)
  show ?thesis
    unfolding eq using dec by (simp add: Let_def emptyBuffer_def bytes_def)
qed

text \<open>
  Claim C7, as stated: a text-format mesh with a face index outside the vertex list makes
  \<open>WriteTo\<close> fail with the out-of-range error before any byte of that face is written.
  The test is made corner by corner, inside the loop over the three indices of a face.
  The only face of the mesh below is \<open>(0, 0, 5)\<close> over one vertex: its first two corners
  are in the buffer when the third is refused.
\<close>

theorem C7_counterexample:
  "WriteTo exampleLib ex_bad_corner_mesh emptyBuffer =
     (183, Some IndexOutOfRange,
      \<lparr>wdata = bytes ''version 1.01\<newline>1\<newline>''
         @ bytes ''[0.000000,0.000000,0.000000][0.000000,0.000000,0.000000][0.000000,1.000000,0.000000]''
         @ bytes ''[0.000000,0.000000,0.000000][0.000000,0.000000,0.000000][0.000000,1.000000,0.000000]'',
       wroom = None\<rparr>)"
  by (simp add: WriteTo_def Write_def ex_bad_corner_mesh_def version_defs bytes_def
        AppendUint_def digit_char_def zeroVertex_def corner_text_def fmt_vec_def example_defs)

text \<open>
  Claim C7, amended: on a writer that takes every byte, a text-format mesh with an index
  outside the vertex list makes \<open>WriteTo\<close> fail with the out-of-range error at the first
  corner, in face order, whose index is out of range. What has been written by then is
  the signature line, the count line and the text of every corner before that one, those
  of the same face included; no byte of the refused corner or of a later one is written,
  and the count returned is the number of bytes written.
\<close>

theorem C7_text_encode_stops_at_first_bad_corner:
  assumes "Version m = Version1_00 \<or> Version m = Version1_01"
    and "wroom w = None"
    and "\<not> list_all (in_range m) (face_corners (Faces m))"
  shows "\<exists>out. WriteTo L m w = (length out, Some IndexOutOfRange, w\<lparr>wdata := wdata w @ out\<rparr>)
           \<and> out = Version_String (Version m) @ bytes ''\<newline>''
                   @ AppendUint [] (length (Faces m)) 32 @ bytes ''\<newline>''
                   @ corners_text L m (takeWhile (in_range m) (face_corners (Faces m)))"
  using assms(3) by (simp add: WriteTo_text_unlimited [OF assms(1,2)] Let_def)

theorem C7_witness:
  "(Version ex_bad_corner_mesh = Version1_00 \<or> Version ex_bad_corner_mesh = Version1_01)
   \<and> wroom emptyBuffer = None
   \<and> \<not> list_all (in_range ex_bad_corner_mesh) (face_corners (Faces ex_bad_corner_mesh))
   \<and> fst (snd (WriteTo exampleLib ex_bad_corner_mesh emptyBuffer)) = Some IndexOutOfRange
   \<and> takeWhile (in_range ex_bad_corner_mesh) (face_corners (Faces ex_bad_corner_mesh)) = [0, 0]"
proof -
  have v: "Version ex_bad_corner_mesh = Version1_00 \<or> Version ex_bad_corner_mesh = Version1_01"
    by (simp add: ex_bad_corner_mesh_def)
  have w: "wroom emptyBuffer = None"
    by (simp add: emptyBuffer_def)
  have bad: "\<not> list_all (in_range ex_bad_corner_mesh) (face_corners (Faces ex_bad_corner_mesh))"
    by (simp add: ex_bad_corner_mesh_def face_corners_def in_range_def)
  have tw: "takeWhile (in_range ex_bad_corner_mesh) (face_corners (Faces ex_bad_corner_mesh)) = [0, 0]"
    by (simp add: ex_bad_corner_mesh_def face_corners_def in_range_def)
  from C7_text_encode_stops_at_first_bad_corner [OF v w bad, of exampleLib]
  have "fst (snd (WriteTo exampleLib ex_bad_corner_mesh emptyBuffer)) = Some IndexOutOfRange"
    by auto
  with v w bad tw show ?thesis by simp
qed

text \<open>
  Claim C8. For a mesh of version 2.00, \<open>WriteTo\<close> makes no bounds check on the face
  indices and never returns the out-of-range error: whatever the writer, the error is
  none or the writer's own; and on a writer that takes every byte the output ends with
  the face records in list order, each the three indices converted by \<open>uint32(...)\<close> and
  written least significant byte first, after the signature line, the twelve header
  bytes and the vertex records. The four bytes read back as the index itself for every
  index that fits 32 bits, inside the vertex list or not.
\<close>

theorem C8_binary_encode_writes_indices_unchecked:
  assumes "Version m = Version2_00"
  shows "fst (snd (WriteTo L m w)) \<noteq> Some IndexOutOfRange
       \<and> (wroom w = None \<longrightarrow>
            (\<exists>pre. WriteTo L m w =
                     (length pre + 12 * length (Faces m), None,
                      w\<lparr>wdata := wdata w @ pre @ concat (map face_bytes (Faces m))\<rparr>)
                  \<and> length pre =
                      13 + 12 + (if HasColor m then nColor else nVertex) * length (Vertices m)))
       \<and> (\<forall>i. 0 \<le> i \<and> i < 2 ^ 32 \<longrightarrow> uint (Uint32 (le32 (word_of_int i)) 0) = i)"
proof (intro conjI impI allI)
  show "fst (snd (WriteTo L m w)) \<noteq> Some IndexOutOfRange"
    using WriteTo_binary_error [OF assms, of L w] by auto
next
  assume w: "wroom w = None"
  from WriteTo_binary_unlimited [OF assms w, of L]
  obtain vbytes where
    W: "WriteTo L m w =
         (13 + 12 + length vbytes + 12 * length (Faces m), None,
          w\<lparr>wdata := wdata w @ Version_String Version2_00 @ bytes ''\<newline>''
                @ take nHeader (binary_header m) @ vbytes
                @ concat (map face_bytes (Faces m))\<rparr>)"
    and lv: "length vbytes = (if HasColor m then nColor else nVertex) * length (Vertices m)"
    by blast
  let ?pre = "Version_String Version2_00 @ bytes ''\<newline>'' @ take nHeader (binary_header m) @ vbytes"
  have lp: "length ?pre = 13 + 12 + length vbytes"
    by (simp add: version_defs bytes_def nHeader_def nHeaderSize_def nColor_def nVertex_def)
  show "\<exists>pre. WriteTo L m w =
                 (length pre + 12 * length (Faces m), None,
                  w\<lparr>wdata := wdata w @ pre @ concat (map face_bytes (Faces m))\<rparr>)
              \<and> length pre =
                  13 + 12 + (if HasColor m then nColor else nVertex) * length (Vertices m)"
    using W lv lp by (intro exI [of _ ?pre]) simp
next
  fix i :: int
  assume "0 \<le> i \<and> i < 2 ^ 32"
  then show "uint (Uint32 (le32 (word_of_int i)) 0) = i"
    by (simp add: Uint32_le32 uint_word_of_int_32)
qed

theorem C8_witness:
  "Version ex_binary_mesh = Version2_00
   \<and> \<not> list_all (in_range ex_binary_mesh) (face_corners (Faces ex_binary_mesh))
   \<and> fst (snd (WriteTo exampleLib ex_binary_mesh emptyBuffer)) \<noteq> Some IndexOutOfRange
   \<and> (\<exists>pre. wdata (snd (snd (WriteTo exampleLib ex_binary_mesh emptyBuffer)))
               = pre @ [5, 0, 0, 0, 0, 0, 0, 0, 7, 0, 0, 0] \<and> length pre = 61)
   \<and> uint (Uint32 (le32 (word_of_int 7)) 0) = 7"
proof -
  have v: "Version ex_binary_mesh = Version2_00"
    by (simp add: ex_binary_mesh_def)
  have bad: "\<not> list_all (in_range ex_binary_mesh) (face_corners (Faces ex_binary_mesh))"
    by (simp add: ex_binary_mesh_def face_corners_def in_range_def)
  have w: "wroom emptyBuffer = None" "wdata emptyBuffer = []"
    by (simp_all add: emptyBuffer_def)
  have fb: "concat (map face_bytes (Faces ex_binary_mesh)) = [5, 0, 0, 0, 0, 0, 0, 0, 7, 0, 0, 0]"
    by (simp add: ex_binary_mesh_def face_bytes_def le32_def)
  have lv: "13 + 12 + (if HasColor ex_binary_mesh then nColor else nVertex)
               * length (Vertices ex_binary_mesh) = 61"
    by (simp add: ex_binary_mesh_def nVertex_def)
  note T = C8_binary_encode_writes_indices_unchecked [OF v, of exampleLib emptyBuffer]
  from T have "fst (snd (WriteTo exampleLib ex_binary_mesh emptyBuffer)) \<noteq> Some IndexOutOfRange"
    by blast
  moreover from T w fb lv
  have "\<exists>pre. wdata (snd (snd (WriteTo exampleLib ex_binary_mesh emptyBuffer)))
               = pre @ [5, 0, 0, 0, 0, 0, 0, 0, 7, 0, 0, 0] \<and> length pre = 61"
    by auto
  moreover have "uint (Uint32 (le32 (word_of_int 7)) 0) = 7"
  proof -
    from T have "\<forall>i. 0 \<le> i \<and> i < 2 ^ 32 \<longrightarrow> uint (Uint32 (le32 (word_of_int i)) 0) = i"
      by blast
    from this [rule_format, of 7] show ?thesis by simp
  qed
  ultimately show ?thesis using v bad by blast
qed

section \<open>Facts about the decoder\<close>

subsection \<open>The signature line and the binary header\<close>

lemma no_newline_in_signature: "0x0A \<notin> set (Version_String v)"
  by (simp add: Version_String_def bytes_def)

lemma length_signature: "length (Version_String v) = 12"
  by (simp add: Version_String_def bytes_def)

lemma last_signature: "last (Version_String v) \<noteq> 0x0D"
  by (simp add: Version_String_def bytes_def)

lemma VersionFromString_String:
  "v = Version1_00 \<or> v = Version1_01 \<or> v = Version2_00 \<Longrightarrow> VersionFromString (Version_String v) = v"
  by (auto simp: version_defs bytes_def)

lemma ReadSlice_found:
  assumes "bufd r = s @ 0x0A # t" and "0x0A \<notin> set s"
  shows "ReadSlice r = (s @ [0x0A], None, r\<lparr>bufd := t\<rparr>)"
proof -
  have tw: "takeWhile (\<lambda>c. c \<noteq> 0x0A) (s @ 0x0A # t) = s"
    using assms(2) by (subst takeWhile_append2) auto
  show ?thesis
    by (subst ReadSlice.simps) (simp add: assms(1) tw Let_def)
qed

lemma ReadLine_found:
  assumes "bufd r = s @ 0x0A # t" and "0x0A \<notin> set s" and "s = [] \<or> last s \<noteq> 0x0D"
  shows "ReadLine r = (s, None, r\<lparr>bufd := t\<rparr>)"
proof -
  have lst: "\<not> (s \<noteq> [] \<and> (s @ [0x0A]) ! (length s - Suc 0) = 0x0D)"
    using assms(3) by (cases s rule: rev_cases) (auto simp: nth_append)
  show ?thesis
    using lst by (auto simp add: ReadLine_def ReadSlice_found [OF assms(1,2)])
qed

lemma ReadSlice_NewReader: "ReadSlice (NewReader rd) = ReadSlice (fill (NewReader rd))"
  by (subst ReadSlice.simps) (simp add: NewReader_def defaultBufSize_def)

lemma bytes_Reader_Nil: "bytes_Reader [] = []"
  by (simp add: bytes_Reader_def)

lemma rr_Read_bytes:
  assumes "src r = bytes_Reader xs"
  shows "rr_Read r k =
           (take k xs, (if xs = [] then Some EOF else None),
            r\<lparr>src := bytes_Reader (drop k xs), nread := nread r + min k (length xs)\<rparr>)"
  using assms by (cases r) (auto simp: rr_Read_def bytes_Reader_def)

lemma fill_unfold:
  "fill r =
     (case rr_Read r (defaultBufSize - length (bufd r)) of
        (bs, err, r') \<Rightarrow>
          (let r2 = r'\<lparr>bufd := bufd r' @ bs\<rparr> in
           if err \<noteq> None then r2\<lparr>perr := err\<rparr>
           else if bs \<noteq> [] then r2
           else fill_loop 99 r2))"
proof -
  have e: "maxConsecutiveEmptyReads = Suc 99"
    by (simp add: maxConsecutiveEmptyReads_def)
  show ?thesis
    unfolding fill_def e by (rule fill_loop.simps(2))
qed

lemma fill_bytes:
  assumes "src r = bytes_Reader xs" and "length (bufd r) < defaultBufSize"
  shows "fill r =
           r\<lparr>src := bytes_Reader (drop (defaultBufSize - length (bufd r)) xs),
             nread := nread r + min (defaultBufSize - length (bufd r)) (length xs),
             bufd := bufd r @ take (defaultBufSize - length (bufd r)) xs,
             perr := (if xs = [] then Some EOF else perr r)\<rparr>"
  using assms(2) by (simp add: fill_unfold rr_Read_bytes [OF assms(1)] Let_def)

lemma fill_NewReader:
  "fill (NewReader (bytes_Reader inp)) =
     \<lparr>src = bytes_Reader (drop 4096 inp), nread = min 4096 (length inp), bufd = take 4096 inp,
      perr = (if inp = [] then Some EOF else None)\<rparr>"
proof -
  have "src (NewReader (bytes_Reader inp)) = bytes_Reader inp"
    "length (bufd (NewReader (bytes_Reader inp))) < defaultBufSize"
    by (simp_all add: NewReader_def defaultBufSize_def)
  from fill_bytes [OF this] show ?thesis
    by (simp add: NewReader_def defaultBufSize_def)
qed

lemma ReadLine_NewReader: "ReadLine (NewReader rd) = ReadLine (fill (NewReader rd))"
  by (simp add: ReadLine_def ReadSlice_NewReader)

lemma ReadLine_first:
  assumes nl: "0x0A \<notin> set s" and len: "length s < 4096" and cr: "s = [] \<or> last s \<noteq> 0x0D"
  shows "ReadLine (NewReader (bytes_Reader (s @ 0x0A # rest))) =
           (s, None,
            \<lparr>src = bytes_Reader (drop 4096 (s @ 0x0A # rest)),
             nread = min 4096 (Suc (length s + length rest)),
             bufd = take (4095 - length s) rest,
             perr = None\<rparr>)"
proof -
  let ?inp = "s @ 0x0A # rest"
  have tk: "take 4096 ?inp = s @ 0x0A # take (4095 - length s) rest"
    using len by (simp add: take_Cons')
  have b: "bufd (fill (NewReader (bytes_Reader ?inp))) = s @ 0x0A # take (4095 - length s) rest"
    unfolding fill_NewReader using tk by simp
  show ?thesis
    unfolding ReadLine_NewReader ReadLine_found [OF b nl cr]
    by (simp add: fill_NewReader)
qed

lemma ReadLine_found_crlf:
  assumes "bufd r = s @ 0x0D # 0x0A # t" and "0x0A \<notin> set s"
  shows "ReadLine r = (s, None, r\<lparr>bufd := t\<rparr>)"
proof -
  have b: "bufd r = (s @ [0x0D]) @ 0x0A # t" using assms(1) by simp
  have n: "0x0A \<notin> set (s @ [0x0D])" using assms(2) by simp
  have nth: "(s @ [0x0D, 0x0A]) ! length s = 0x0D" by (simp add: nth_append)
  show ?thesis
    using nth by (simp add: ReadLine_def ReadSlice_found [OF b n])
qed

lemma ReadLine_first_eol:
  assumes eol: "eol = [0x0A] \<or> eol = [0x0D, 0x0A]"
    and nl: "0x0A \<notin> set s" and len: "length s < 4000" and cr: "s = [] \<or> last s \<noteq> 0x0D"
  shows "ReadLine (NewReader (bytes_Reader (s @ eol @ rest))) =
           (s, None,
            \<lparr>src = bytes_Reader (drop 4096 (s @ eol @ rest)),
             nread = min 4096 (length (s @ eol @ rest)),
             bufd = take (4096 - length s - length eol) rest,
             perr = None\<rparr>)"
proof -
  let ?inp = "s @ eol @ rest"
  have ne: "?inp \<noteq> []" using eol by auto
  from eol show ?thesis
  proof
    assume e: "eol = [0x0A]"
    have b: "bufd (fill (NewReader (bytes_Reader ?inp))) =
               s @ 0x0A # take (4096 - length s - length eol) rest"
      unfolding fill_NewReader using len by (simp add: e take_Cons')
    show ?thesis
      unfolding ReadLine_NewReader ReadLine_found [OF b nl cr]
      using ne by (simp add: fill_NewReader)
  next
    assume e: "eol = [0x0D, 0x0A]"
    have b: "bufd (fill (NewReader (bytes_Reader ?inp))) =
               s @ 0x0D # 0x0A # take (4096 - length s - length eol) rest"
      unfolding fill_NewReader using len by (simp add: e take_Cons')
    show ?thesis
      unfolding ReadLine_NewReader ReadLine_found_crlf [OF b nl]
      using ne by (simp add: fill_NewReader)
  qed
qed

lemma replicate_nColor: "replicate nColor (0::byte) = replicate 2 0 @ replicate 8 0 @ replicate 30 0"
  by (simp add: nColor_def nVertex_def replicate_add [symmetric])

lemma read_binary_header_size:
  assumes "bufd r = lo # hi # rest" and "unat (Uint16 [lo, hi] 0) \<noteq> nHeader"
  shows "read_binary L m r = (nread r, Some UnexpectedHeaderSize, m)"
  using assms
  by (simp add: read_binary_def read_into_def bufio_Read_def nHeaderSize_def Let_def
        Uint16_def replicate_nColor)

lemma read_binary_face_size:
  assumes "bufd r = h0 # h1 # h2 # h3 # h4 # h5 # h6 # h7 # h8 # h9 # rest"
    and "unat (Uint16 [h0, h1] 0) = nHeader"
    and "unat h2 = nVertex \<or> unat h2 = nColor"
    and "unat h3 \<noteq> nFace"
  shows "read_binary L m r = (nread r, Some UnexpectedFaceSize, m\<lparr>HasColor := (unat h2 = nColor)\<rparr>)"
  using assms
  by (simp add: read_binary_def read_into_def bufio_Read_def nHeaderSize_def nHeader_def Let_def
        Uint16_def replicate_nColor)

lemma take_binary_header:
  "take nHeader (binary_header m) =
     [12, 0, (if HasColor m then 40 else 36), 0, 12, 0]
       @ le32 (of_nat (length (Vertices m))) @ take 2 (le32 (of_nat (length (Faces m))))"
proof (rule nth_equalityI)
  show "length (take nHeader (binary_header m)) =
        length ([12, 0, (if HasColor m then 40 else 36), 0, 12, 0]
           @ le32 (of_nat (length (Vertices m))) @ take 2 (le32 (of_nat (length (Faces m)))))"
    by (simp add: nHeader_def nHeaderSize_def nColor_def nVertex_def le32_def)
next
  fix k assume "k < length (take nHeader (binary_header m))"
  then have "k < 12" by (simp add: nHeader_def nHeaderSize_def)
  then consider (h0) "k = 0" | (h1) "k = 1" | (v0) "k = 2" | (v1) "k = 3"
    | (f0) "k = 4" | (f1) "k = 5" | (c0) "k = 6" | (c1) "k = 7"
    | (c2) "k = 8" | (c3) "k = 9" | (d0) "k = 10" | (d1) "k = 11"
    by atomize_elim arith
  then show "take nHeader (binary_header m) ! k =
        ([12, 0, (if HasColor m then 40 else 36), 0, 12, 0]
           @ le32 (of_nat (length (Vertices m))) @ take 2 (le32 (of_nat (length (Faces m))))) ! k"
    by cases
      (simp_all add: binary_header_def Let_def put16_def put32_def nth_list_update
         nHeader_def nHeaderSize_def nColor_def nVertex_def nFace_def le32_def)
qed

lemma signature_line: "bytes ''version 2.00\<newline>'' = Version_String Version2_00 @ [0x0A]"
  by (simp add: version_defs bytes_def)

lemma ReadFrom_header_size:
  assumes "unat (Uint16 [lo, hi] 0) \<noteq> nHeader"
  shows "ReadFrom L m (bytes_Reader (bytes ''version 2.00\<newline>'' @ lo # hi # rest))
           = (min 4096 (15 + length rest), Some UnexpectedHeaderSize, m)"
    and "ReadFrom_part_000 L m (bytes_Reader (bytes ''version 2.00\<newline>'' @ lo # hi # rest))
           = (min 4096 (15 + length rest), Some UnexpectedHeaderSize, m\<lparr>Version := Version2_00\<rparr>)"
proof -
  let ?s = "Version_String Version2_00"
  let ?r1 = "\<lparr>src = bytes_Reader (drop 4096 (?s @ 0x0A # lo # hi # rest)),
              nread = min 4096 (Suc (length ?s + length (lo # hi # rest))),
              bufd = take (4095 - length ?s) (lo # hi # rest), perr = None\<rparr>"
  have inp: "bytes ''version 2.00\<newline>'' @ lo # hi # rest = ?s @ 0x0A # lo # hi # rest"
    by (simp add: signature_line)
  have RL: "ReadLine (NewReader (bytes_Reader (?s @ 0x0A # lo # hi # rest))) = (?s, None, ?r1)"
    by (rule ReadLine_first) (simp_all add: no_newline_in_signature length_signature last_signature)
  have b: "bufd ?r1 = lo # hi # take 4081 rest"
    by (simp add: length_signature)
  have v: "VersionFromString ?s = Version2_00"
    by (rule VersionFromString_String) simp
  have ne: "Version2_00 \<noteq> Version1_00" "Version2_00 \<noteq> Version1_01"
    by (simp_all add: version_defs)
  have n: "nread ?r1 = min 4096 (15 + length rest)"
    by (simp add: length_signature)
  note RB = read_binary_header_size [OF b assms]
  show "ReadFrom L m (bytes_Reader (bytes ''version 2.00\<newline>'' @ lo # hi # rest))
           = (min 4096 (15 + length rest), Some UnexpectedHeaderSize, m)"
    unfolding inp ReadFrom_def RL using v ne RB [of L m] n by (simp add: Let_def)
  show "ReadFrom_part_000 L m (bytes_Reader (bytes ''version 2.00\<newline>'' @ lo # hi # rest))
           = (min 4096 (15 + length rest), Some UnexpectedHeaderSize, m\<lparr>Version := Version2_00\<rparr>)"
    unfolding inp ReadFrom_part_000_def RL
    using v ne RB [of L "m\<lparr>Version := Version2_00\<rparr>"] n by (simp add: Let_def)
qed

lemma ReadFrom_header_size_eol:
  assumes eol: "eol = [0x0A] \<or> eol = [0x0D, 0x0A]"
    and hs: "unat (Uint16 [lo, hi] 0) \<noteq> nHeader"
  shows "ReadFrom L m (bytes_Reader (bytes ''version 2.00'' @ eol @ lo # hi # rest))
           = (min 4096 (length (bytes ''version 2.00'' @ eol @ lo # hi # rest)),
              Some UnexpectedHeaderSize, m)"
    and "ReadFrom_part_000 L m (bytes_Reader (bytes ''version 2.00'' @ eol @ lo # hi # rest))
           = (min 4096 (length (bytes ''version 2.00'' @ eol @ lo # hi # rest)),
              Some UnexpectedHeaderSize, m\<lparr>Version := Version2_00\<rparr>)"
proof -
  let ?s = "Version_String Version2_00"
  let ?inp = "?s @ eol @ lo # hi # rest"
  let ?r1 = "\<lparr>src = bytes_Reader (drop 4096 ?inp), nread = min 4096 (length ?inp),
              bufd = take (4096 - length ?s - length eol) (lo # hi # rest), perr = None\<rparr>"
  have s: "bytes ''version 2.00'' = ?s"
    by (simp add: version_defs)
  have RL: "ReadLine (NewReader (bytes_Reader ?inp)) = (?s, None, ?r1)"
    by (rule ReadLine_first_eol [OF eol])
       (simp_all add: no_newline_in_signature length_signature last_signature)
  define k where "k = 4094 - (length ?s + length eol)"
  have k: "4096 - (length ?s + length eol) = Suc (Suc k)"
    using eol by (auto simp: k_def length_signature)
  have b: "bufd ?r1 = lo # hi # take k rest"
    by (simp add: k)
  have v: "VersionFromString ?s = Version2_00"
    by (rule VersionFromString_String) simp
  have ne: "Version2_00 \<noteq> Version1_00" "Version2_00 \<noteq> Version1_01"
    by (simp_all add: version_defs)
  note RB = read_binary_header_size [OF b hs]
  show "ReadFrom L m (bytes_Reader (bytes ''version 2.00'' @ eol @ lo # hi # rest))
           = (min 4096 (length (bytes ''version 2.00'' @ eol @ lo # hi # rest)),
              Some UnexpectedHeaderSize, m)"
    unfolding s ReadFrom_def RL using v ne RB [of L m] by (simp add: Let_def)
  show "ReadFrom_part_000 L m (bytes_Reader (bytes ''version 2.00'' @ eol @ lo # hi # rest))
           = (min 4096 (length (bytes ''version 2.00'' @ eol @ lo # hi # rest)),
              Some UnexpectedHeaderSize, m\<lparr>Version := Version2_00\<rparr>)"
    unfolding s ReadFrom_part_000_def RL
    using v ne RB [of L "m\<lparr>Version := Version2_00\<rparr>"] by (simp add: Let_def)
qed

lemma binary_round_trip_fails:
  assumes "Version m = Version2_00"
  shows "\<exists>n. ReadFrom L m0 (bytes_Reader (wdata (snd (snd (WriteTo L m emptyBuffer)))))
               = (n, Some UnexpectedFaceSize, m0\<lparr>HasColor := HasColor m\<rparr>)
           \<and> ReadFrom_part_000 L m0 (bytes_Reader (wdata (snd (snd (WriteTo L m emptyBuffer)))))
               = (n, Some UnexpectedFaceSize, m0\<lparr>Version := Version2_00, HasColor := HasColor m\<rparr>)"
proof -
  let ?s = "Version_String Version2_00"
  have w: "wroom emptyBuffer = None" by (simp add: emptyBuffer_def)
  from WriteTo_binary_unlimited [OF assms w, of L]
  obtain vbytes where
    W: "wdata (snd (snd (WriteTo L m emptyBuffer))) =
          ?s @ bytes ''\<newline>'' @ take nHeader (binary_header m) @ vbytes
            @ concat (map face_bytes (Faces m))"
    by (auto simp: emptyBuffer_def)
  define vs :: byte where "vs = (if HasColor m then 40 else 36)"
  obtain c0 c1 c2 c3 where c: "le32 (of_nat (length (Vertices m))) = [c0, c1, c2, c3]"
    by (simp add: le32_def)
  obtain d0 d1 where d: "take 2 (le32 (of_nat (length (Faces m)))) = [d0, d1]"
    by (simp add: le32_def)
  define rest where "rest = [d0, d1] @ vbytes @ concat (map face_bytes (Faces m))"
  have out: "wdata (snd (snd (WriteTo L m emptyBuffer))) =
        ?s @ 0x0A # 12 # 0 # vs # 0 # 12 # 0 # c0 # c1 # c2 # c3 # rest"
    unfolding W take_binary_header c d by (simp add: bytes_def vs_def rest_def)
  let ?rest = "12 # 0 # vs # 0 # 12 # 0 # c0 # c1 # c2 # c3 # rest"
  let ?r1 = "\<lparr>src = bytes_Reader (drop 4096 (?s @ 0x0A # ?rest)),
              nread = min 4096 (Suc (length ?s + length ?rest)),
              bufd = take (4095 - length ?s) ?rest, perr = None\<rparr>"
  have RL: "ReadLine (NewReader (bytes_Reader (?s @ 0x0A # ?rest))) = (?s, None, ?r1)"
    by (rule ReadLine_first) (simp_all add: no_newline_in_signature length_signature last_signature)
  have b: "bufd ?r1 = 12 # 0 # vs # 0 # 12 # 0 # c0 # c1 # c2 # c3 # take 4073 rest"
    by (simp add: length_signature)
  have v: "VersionFromString ?s = Version2_00"
    by (rule VersionFromString_String) simp
  have ne: "Version2_00 \<noteq> Version1_00" "Version2_00 \<noteq> Version1_01"
    by (simp_all add: version_defs)
  have hs: "unat (Uint16 [12, 0] 0) = nHeader"
    by (simp add: Uint16_def nHeader_def nHeaderSize_def)
  have vsz: "unat vs = nVertex \<or> unat vs = nColor"
    by (simp add: vs_def nVertex_def nColor_def)
  have hc: "(unat vs = nColor) = HasColor m"
    by (simp add: vs_def nVertex_def nColor_def)
  have fsz: "unat (0::byte) \<noteq> nFace"
    by (simp add: nFace_def)
  note RB = read_binary_face_size [OF b hs vsz fsz, unfolded hc]
  have 1: "ReadFrom L m0 (bytes_Reader (?s @ 0x0A # ?rest))
         = (nread ?r1, Some UnexpectedFaceSize, m0\<lparr>HasColor := HasColor m\<rparr>)"
    unfolding ReadFrom_def RL using v ne RB [of L m0] by (simp add: Let_def)
  have 2: "ReadFrom_part_000 L m0 (bytes_Reader (?s @ 0x0A # ?rest))
         = (nread ?r1, Some UnexpectedFaceSize, m0\<lparr>Version := Version2_00, HasColor := HasColor m\<rparr>)"
    unfolding ReadFrom_part_000_def RL
    using v ne RB [of L "m0\<lparr>Version := Version2_00\<rparr>"] by (simp add: Let_def)
  show ?thesis
    unfolding out using 1 2 by blast
qed

subsection \<open>The count line of the text formats\<close>

lemma rr_Read_bufd: "rr_Read r k = (bs, err, r') \<Longrightarrow> bufd r' = bufd r"
  by (auto simp: rr_Read_def split: list.splits if_splits)

lemma fill_loop_bufd: "\<exists>bs. bufd (fill_loop i r) = bufd r @ bs"
proof (induction i arbitrary: r)
  case 0
  show ?case by simp
next
  case (Suc i)
  obtain bs err r' where rd: "rr_Read r (defaultBufSize - length (bufd r)) = (bs, err, r')"
    by (cases "rr_Read r (defaultBufSize - length (bufd r))") auto
  note b = rr_Read_bufd [OF rd]
  from Suc.IH [of "r'\<lparr>bufd := bufd r' @ bs\<rparr>"]
  obtain cs where "bufd (fill_loop i (r'\<lparr>bufd := bufd r' @ bs\<rparr>)) = (bufd r' @ bs) @ cs"
    by auto
  then show ?case
    by (auto simp: rd b Let_def)
qed

lemma fill_bufd:
  "\<exists>bs. bufd (fill r) = bufd r @ bs"
  unfolding fill_def by (rule fill_loop_bufd)

lemma hd_take_Suc: "xs \<noteq> [] \<Longrightarrow> hd (take (Suc n) xs) = hd xs"
  by (cases xs) simp_all

lemma ReadSlice_nonempty:
  "bufd r \<noteq> [] \<Longrightarrow> ReadSlice r = (line, err, r') \<Longrightarrow> line \<noteq> [] \<and> hd line = hd (bufd r)"
proof (induction r arbitrary: line err r' rule: ReadSlice.induct)
  case (1 r)
  show ?case
  proof (cases "0x0A \<in> set (bufd r) \<or> perr r \<noteq> None \<or> defaultBufSize \<le> length (bufd r)")
    case True
    with "1.prems" show ?thesis
      by (subst (asm) ReadSlice.simps) (auto simp: Let_def hd_take_Suc split: if_splits)
  next
    case False
    obtain bs where bs: "bufd (fill r) = bufd r @ bs" using fill_bufd by blast
    from False "1.prems"(2) have rs: "ReadSlice (fill r) = (line, err, r')"
      by (subst (asm) ReadSlice.simps) simp
    have ne: "bufd (fill r) \<noteq> []" using bs "1.prems"(1) by simp
    from False have c: "0x0A \<notin> set (bufd r)" "\<not> perr r \<noteq> None" "\<not> defaultBufSize \<le> length (bufd r)"
      by auto
    from "1.IH" [OF c ne rs] bs "1.prems"(1) show ?thesis by simp
  qed
qed

lemma ReadLine_nonempty:
  assumes "bufd r \<noteq> []"
  shows "\<exists>line r'. ReadLine r = (line, None, r') \<and> (line = [] \<or> hd line = hd (bufd r))"
proof -
  obtain line err r1 where rs: "ReadSlice r = (line, err, r1)"
    by (cases "ReadSlice r") auto
  from ReadSlice_nonempty [OF assms rs] have ne: "line \<noteq> []" and hd: "hd line = hd (bufd r)"
    by auto
  have bl: "butlast line = [] \<or> hd (butlast line) = hd line"
    using ne by (cases line) auto
  have tk: "\<And>k. take k line = [] \<or> hd (take k line) = hd line"
    using ne by (cases line) (auto simp: take_Cons')
  show ?thesis
    using ne hd bl tk [of "length line - 2"] tk [of "length line - 1"]
    by (auto simp: ReadLine_def rs)
qed

lemma takeWhile_no_digit: "line = [] \<or> \<not> is_digit (hd line) \<Longrightarrow> takeWhile is_digit line = []"
  by (cases line) auto

lemma read_text_no_digit:
  assumes "bufd r \<noteq> []" and "\<not> is_digit (hd (bufd r))"
  shows "\<exists>n. \<forall>m. read_text L version m r = (n, None, m\<lparr>Vertices := [], Faces := []\<rparr>)"
proof -
  from ReadLine_nonempty [OF assms(1)]
  obtain line r' where rl: "ReadLine r = (line, None, r')" and h: "line = [] \<or> hd line = hd (bufd r)"
    by blast
  from h assms(2) have "takeWhile is_digit line = []"
    by (intro takeWhile_no_digit) auto
  then have "\<forall>m. read_text L version m r = (nread r', None, m\<lparr>Vertices := [], Faces := []\<rparr>)"
    by (simp add: read_text_def rl Atoi_def Let_def)
  then show ?thesis ..
qed

lemma read_text_fields:
  "read_text L version m r = (n, e, m') \<Longrightarrow> HasColor m' = HasColor m \<and> Version m' = Version m"
  by (auto simp: read_text_def Let_def split: prod.splits option.splits if_splits)


lemma ReadFrom_part_000_text_fields:
  assumes "ReadFrom_part_000 L m input = (n, None, m')"
    and "input_version input = Version1_00 \<or> input_version input = Version1_01"
  shows "HasColor m' = False \<and> Version m' = input_version input"
proof -
  obtain line err r1 where rl: "ReadLine (NewReader input) = (line, err, r1)"
    by (cases "ReadLine (NewReader input)") auto
  from assms(2) rl have v: "VersionFromString line = Version1_00 \<or> VersionFromString line = Version1_01"
    by (simp add: input_version_def)
  from assms(1) rl have e: "err = None"
    by (auto simp: ReadFrom_part_000_def split: if_splits)
  from assms(1) rl e v
  have "read_text L (VersionFromString line)
          (m\<lparr>Version := VersionFromString line, HasColor := False\<rparr>) r1 = (n, None, m')"
    by (auto simp: ReadFrom_part_000_def Let_def)
  from read_text_fields [OF this] rl show ?thesis
    by (simp add: input_version_def)
qed

lemma ReadFrom_text_fields:
  assumes "ReadFrom L m input = (n, None, m')"
    and "input_version input = Version1_00 \<or> input_version input = Version1_01"
  shows "HasColor m' = HasColor m \<and> Version m' = Version m"
proof -
  obtain line err r1 where rl: "ReadLine (NewReader input) = (line, err, r1)"
    by (cases "ReadLine (NewReader input)") auto
  from assms(2) rl have v: "VersionFromString line = Version1_00 \<or> VersionFromString line = Version1_01"
    by (simp add: input_version_def)
  from assms(1) rl have e: "err = None"
    by (auto simp: ReadFrom_def split: if_splits)
  from assms(1) rl e v
  have "read_text L (VersionFromString line) m r1 = (n, None, m')"
    by (auto simp: ReadFrom_def Let_def)
  from read_text_fields [OF this] show ?thesis .
qed

lemma text_version_cases:
  "v = Version1_00 \<or> v = Version1_01 \<Longrightarrow> v \<noteq> Version2_00"
  by (auto simp: version_defs)

lemma ReadFrom_no_digit:
  assumes v: "v = Version1_00 \<or> v = Version1_01" and c: "\<not> is_digit c"
  shows "\<exists>n. ReadFrom L m (bytes_Reader (Version_String v @ 0x0A # c # rest))
              = (n, None, m\<lparr>Vertices := [], Faces := []\<rparr>)
           \<and> ReadFrom_part_000 L m (bytes_Reader (Version_String v @ 0x0A # c # rest))
              = (n, None, m\<lparr>Version := v, HasColor := False, Vertices := [], Faces := []\<rparr>)"
proof -
  let ?s = "Version_String v"
  let ?r1 = "\<lparr>src = bytes_Reader (drop 4096 (?s @ 0x0A # c # rest)),
              nread = min 4096 (Suc (length ?s + length (c # rest))),
              bufd = take (4095 - length ?s) (c # rest), perr = None\<rparr>"
  have RL: "ReadLine (NewReader (bytes_Reader (?s @ 0x0A # c # rest))) = (?s, None, ?r1)"
    by (rule ReadLine_first) (simp_all add: no_newline_in_signature length_signature last_signature)
  have b: "bufd ?r1 \<noteq> []" "\<not> is_digit (hd (bufd ?r1))"
    using c by (simp_all add: length_signature)
  have vs: "VersionFromString ?s = v"
    using v by (intro VersionFromString_String) auto
  from read_text_no_digit [OF b, of L v]
  obtain n where n: "\<And>m. read_text L v m ?r1 = (n, None, m\<lparr>Vertices := [], Faces := []\<rparr>)"
    by blast
  have 1: "ReadFrom L m (bytes_Reader (?s @ 0x0A # c # rest)) = (n, None, m\<lparr>Vertices := [], Faces := []\<rparr>)"
    unfolding ReadFrom_def RL using v vs n [of m] by (auto simp: Let_def)
  have 2: "ReadFrom_part_000 L m (bytes_Reader (?s @ 0x0A # c # rest))
             = (n, None, m\<lparr>Version := v, HasColor := False, Vertices := [], Faces := []\<rparr>)"
    unfolding ReadFrom_part_000_def RL
    using v vs n [of "m\<lparr>Version := v, HasColor := False\<rparr>"] by (auto simp: Let_def)
  from 1 2 show ?thesis by blast
qed

lemma ReadFrom_no_digit_eol:
  assumes eol: "eol = [0x0A] \<or> eol = [0x0D, 0x0A]"
    and v: "v = Version1_00 \<or> v = Version1_01" and c: "\<not> is_digit c"
  shows "\<exists>n. ReadFrom L m (bytes_Reader (Version_String v @ eol @ c # rest))
              = (n, None, m\<lparr>Vertices := [], Faces := []\<rparr>)
           \<and> ReadFrom_part_000 L m (bytes_Reader (Version_String v @ eol @ c # rest))
              = (n, None, m\<lparr>Version := v, HasColor := False, Vertices := [], Faces := []\<rparr>)"
proof -
  let ?s = "Version_String v"
  let ?inp = "?s @ eol @ c # rest"
  let ?r1 = "\<lparr>src = bytes_Reader (drop 4096 ?inp), nread = min 4096 (length ?inp),
              bufd = take (4096 - length ?s - length eol) (c # rest), perr = None\<rparr>"
  have RL: "ReadLine (NewReader (bytes_Reader ?inp)) = (?s, None, ?r1)"
    by (rule ReadLine_first_eol [OF eol])
       (simp_all add: no_newline_in_signature length_signature last_signature)
  define k where "k = 4095 - (length ?s + length eol)"
  have k: "4096 - (length ?s + length eol) = Suc k"
    using eol by (auto simp: k_def length_signature)
  have b: "bufd ?r1 \<noteq> []" "\<not> is_digit (hd (bufd ?r1))"
    using c by (simp_all add: k)
  have vs: "VersionFromString ?s = v"
    using v by (intro VersionFromString_String) auto
  from read_text_no_digit [OF b, of L v]
  obtain n where n: "\<And>m. read_text L v m ?r1 = (n, None, m\<lparr>Vertices := [], Faces := []\<rparr>)"
    by blast
  have 1: "ReadFrom L m (bytes_Reader ?inp) = (n, None, m\<lparr>Vertices := [], Faces := []\<rparr>)"
    unfolding ReadFrom_def RL using v vs n [of m] by (auto simp: Let_def)
  have 2: "ReadFrom_part_000 L m (bytes_Reader ?inp)
             = (n, None, m\<lparr>Version := v, HasColor := False, Vertices := [], Faces := []\<rparr>)"
    unfolding ReadFrom_part_000_def RL
    using v vs n [of "m\<lparr>Version := v, HasColor := False\<rparr>"] by (auto simp: Let_def)
  from 1 2 show ?thesis by blast
qed

lemma ReadFrom_zero_faces:
  assumes v: "v = Version1_00 \<or> v = Version1_01"
  shows "ReadFrom L m (bytes_Reader (Version_String v @ bytes ''\<newline>0\<newline>''))
            = (15, None, m\<lparr>Vertices := [], Faces := []\<rparr>)"
    and "ReadFrom_part_000 L m (bytes_Reader (Version_String v @ bytes ''\<newline>0\<newline>''))
            = (15, None, m\<lparr>Version := v, HasColor := False, Vertices := [], Faces := []\<rparr>)"
proof -
  let ?s = "Version_String v"
  let ?r1 = "\<lparr>src = bytes_Reader (drop 4096 (?s @ 0x0A # [0x30, 0x0A])),
              nread = min 4096 (Suc (length ?s + length [0x30, 0x0A :: byte])),
              bufd = take (4095 - length ?s) [0x30, 0x0A], perr = None\<rparr>"
  have inp: "?s @ bytes ''\<newline>0\<newline>'' = ?s @ 0x0A # [0x30, 0x0A]"
    by (simp add: bytes_def)
  have RL: "ReadLine (NewReader (bytes_Reader (?s @ 0x0A # [0x30, 0x0A]))) = (?s, None, ?r1)"
    by (rule ReadLine_first) (simp_all add: no_newline_in_signature length_signature last_signature)
  have b: "bufd ?r1 = [0x30] @ 0x0A # []"
    by (simp add: length_signature)
  have RL2: "ReadLine ?r1 = ([0x30], None, ?r1\<lparr>bufd := []\<rparr>)"
    by (rule ReadLine_found [OF b]) simp_all
  have a: "is_digit 0x30" "Atoi [0x30] = 0"
    by (simp_all add: Atoi_def is_digit_def decimal_def)
  have rt: "\<And>m. read_text L v m ?r1 = (15, None, m\<lparr>Vertices := [], Faces := []\<rparr>)"
    unfolding read_text_def RL2 by (simp add: a Let_def length_signature)
  have vs: "VersionFromString ?s = v"
    using v by (intro VersionFromString_String) auto
  show "ReadFrom L m (bytes_Reader (?s @ bytes ''\<newline>0\<newline>'')) = (15, None, m\<lparr>Vertices := [], Faces := []\<rparr>)"
    unfolding inp ReadFrom_def RL using v vs rt [of m] by (auto simp: Let_def)
  show "ReadFrom_part_000 L m (bytes_Reader (?s @ bytes ''\<newline>0\<newline>''))
            = (15, None, m\<lparr>Version := v, HasColor := False, Vertices := [], Faces := []\<rparr>)"
    unfolding inp ReadFrom_part_000_def RL
    using v vs rt [of "m\<lparr>Version := v, HasColor := False\<rparr>"] by (auto simp: Let_def)
qed

subsection \<open>The corner loop and the vertex map\<close>

lemma intern_all_append:
  "intern_all verts (xs @ ys) =
     (case intern_all verts xs of
        (v1, i1) \<Rightarrow> (case intern_all v1 ys of (v2, i2) \<Rightarrow> (v2, i1 @ i2)))"
  by (induction xs arbitrary: verts) (auto split: prod.splits)

lemma corner_stream_add:
  "corner_stream L version a r = (cs1, r1) \<Longrightarrow> length cs1 = a \<Longrightarrow>
   corner_stream L version b r1 = (cs2, r2) \<Longrightarrow>
   corner_stream L version (a + b) r = (cs1 @ cs2, r2)"
proof (induction a arbitrary: r cs1)
  case 0
  then show ?case by simp
next
  case (Suc a)
  from Suc.prems(1,2) obtain c r' cs' where
    sc: "Fscanf L r = (Inr c, r')" and rest: "corner_stream L version a r' = (cs', r1)"
    and cs1: "cs1 = corner_vertex L version c # cs'"
    by (auto split: prod.splits sum.splits)
  from Suc.prems(2) cs1 have "length cs' = a" by simp
  from Suc.IH [OF rest this Suc.prems(3)] sc cs1 show ?case by simp
qed

lemma read_corners_step:
  assumes "read_corners L version i (f # fs) (verts, faces, r) = (None, st')"
  shows "\<exists>c r1 verts1 idx.
           Fscanf L r = (Inr c, r1) \<and> intern verts (corner_vertex L version c) = (verts1, idx)
           \<and> read_corners L version i fs
                (verts1, faces[i := set_index (faces ! i) f idx], r1) = (None, st')"
proof -
  obtain res r1 where sc: "Fscanf L r = (res, r1)"
    by (cases "Fscanf L r") auto
  from assms sc obtain c where c: "res = Inr c"
    by (cases res) auto
  show ?thesis
  proof (cases "map_lookup verts (corner_vertex L version c)")
    case None
    with assms sc c show ?thesis by (simp add: intern_def Let_def)
  next
    case (Some index)
    with assms sc c show ?thesis by (simp add: intern_def Let_def)
  qed
qed

lemma set_index_3:
  "set_index (set_index (set_index face 0 a) 1 b) 2 c = (a, b, c)"
  "set_index (set_index (set_index face 0 a) (Suc 0) b) 2 c = (a, b, c)"
  by (cases face; simp add: set_index_def)+

lemma read_corners_face:
  assumes "read_corners L version i [0, 1, 2] (verts, faces, r) = (None, (verts', faces', r'))"
    and "i < length faces"
  shows "\<exists>cs a b c. corner_stream L version 3 r = (cs, r') \<and> length cs = 3
           \<and> intern_all verts cs = (verts', [a, b, c]) \<and> faces' = faces[i := (a, b, c)]"
proof -
  from read_corners_step [OF assms(1)] obtain c0 r1 verts1 a where
    s0: "Fscanf L r = (Inr c0, r1)" and i0: "intern verts (corner_vertex L version c0) = (verts1, a)"
    and rc1: "read_corners L version i [1, 2]
                (verts1, faces[i := set_index (faces ! i) 0 a], r1) = (None, (verts', faces', r'))"
    by blast
  from read_corners_step [OF rc1] obtain c1 r2 verts2 b where
    s1: "Fscanf L r1 = (Inr c1, r2)" and i1: "intern verts1 (corner_vertex L version c1) = (verts2, b)"
    and rc2: "read_corners L version i [2]
                (verts2, faces[i := set_index (faces ! i) 0 a, i := set_index (set_index (faces ! i) 0 a) 1 b], r2)
                 = (None, (verts', faces', r'))"
    using assms(2) by auto
  from read_corners_step [OF rc2] obtain c2 r3 verts3 c where
    s2: "Fscanf L r2 = (Inr c2, r3)" and i2: "intern verts2 (corner_vertex L version c2) = (verts3, c)"
    and rc3: "read_corners L version i []
                (verts3, faces[i := set_index (set_index (set_index (faces ! i) 0 a) 1 b) 2 c], r3)
                 = (None, (verts', faces', r'))"
    using assms(2) by auto
  from rc3 have e: "verts' = verts3" "r' = r3" "faces' = faces[i := (a, b, c)]"
    by (simp_all add: set_index_3)
  let ?cs = "[corner_vertex L version c0, corner_vertex L version c1, corner_vertex L version c2]"
  have "corner_stream L version 3 r = (?cs, r')"
    using s0 s1 s2 e by (simp add: numeral_3_eq_3)
  moreover have "intern_all verts ?cs = (verts', [a, b, c])"
    using i0 i1 i2 e by simp
  ultimately show ?thesis using e by (intro exI [of _ ?cs] exI [of _ a] exI [of _ b] exI [of _ c]) simp
qed

lemma face_corners_Cons: "face_corners ((a, b, c) # fs) = [a, b, c] @ face_corners fs"
  by (simp add: face_corners_def)

lemma read_faces_pure:
  "read_faces L version [i0..<i0 + k] (verts, faces, r) = (None, (verts', faces', r')) \<Longrightarrow>
   i0 + k \<le> length faces \<Longrightarrow>
   \<exists>cs idxs. corner_stream L version (3 * k) r = (cs, r') \<and> length cs = 3 * k
      \<and> intern_all verts cs = (verts', idxs)
      \<and> length faces' = length faces \<and> take i0 faces' = take i0 faces
      \<and> face_corners (take k (drop i0 faces')) = idxs"
proof (induction k arbitrary: i0 verts faces r)
  case 0
  then show ?case by (simp add: face_corners_def)
next
  case (Suc k)
  have upt: "[i0..<i0 + Suc k] = i0 # [Suc i0..<Suc i0 + k]"
    by (simp add: upt_conv_Cons)
  from Suc.prems(1) obtain verts1 faces1 r1 where
    rc: "read_corners L version i0 [0, 1, 2] (verts, faces, r) = (None, (verts1, faces1, r1))"
    and rf: "read_faces L version [Suc i0..<Suc i0 + k] (verts1, faces1, r1) = (None, (verts', faces', r'))"
    unfolding upt by (auto simp del: read_corners.simps split: prod.splits option.splits)
  have i0: "i0 < length faces" using Suc.prems(2) by simp
  from read_corners_face [OF rc i0] obtain cs1 a b c where
    cs1: "corner_stream L version 3 r = (cs1, r1)" and l1: "length cs1 = 3"
    and ia1: "intern_all verts cs1 = (verts1, [a, b, c])" and f1: "faces1 = faces[i0 := (a, b, c)]"
    by blast
  have len1: "Suc i0 + k \<le> length faces1" using Suc.prems(2) f1 by simp
  from Suc.IH [OF rf len1] obtain cs2 idxs2 where
    cs2: "corner_stream L version (3 * k) r1 = (cs2, r')" and l2: "length cs2 = 3 * k"
    and ia2: "intern_all verts1 cs2 = (verts', idxs2)"
    and lf: "length faces' = length faces1"
    and tk: "take (Suc i0) faces' = take (Suc i0) faces1"
    and fc: "face_corners (take k (drop (Suc i0) faces')) = idxs2"
    by blast
  have lf': "length faces' = length faces" using lf f1 by simp
  have "take i0 (take (Suc i0) faces') = take i0 (take (Suc i0) faces1)" using tk by simp
  then have tk0: "take i0 faces' = take i0 faces" using f1 by (simp add: min_def)
  have "take (Suc i0) faces' ! i0 = take (Suc i0) faces1 ! i0" using tk by simp
  then have nth: "faces' ! i0 = (a, b, c)" using f1 i0 by simp
  have dr: "drop i0 faces' = (a, b, c) # drop (Suc i0) faces'"
    using i0 lf' nth by (metis Cons_nth_drop_Suc)
  have fc': "face_corners (take (Suc k) (drop i0 faces')) = [a, b, c] @ idxs2"
    unfolding dr using fc by (simp add: face_corners_Cons)
  have "corner_stream L version (3 + 3 * k) r = (cs1 @ cs2, r')"
    by (rule corner_stream_add [OF cs1 l1 cs2])
  then have cs: "corner_stream L version (3 * Suc k) r = (cs1 @ cs2, r')" by simp
  have ia: "intern_all verts (cs1 @ cs2) = (verts', [a, b, c] @ idxs2)"
    by (simp add: intern_all_append ia1 ia2)
  show ?case
    using cs l1 l2 ia lf' tk0 fc' by (intro exI [of _ "cs1 @ cs2"] exI [of _ "[a, b, c] @ idxs2"]) simp
qed

lemma map_lookup_Some_mem:
  assumes "map_lookup verts v = Some idx"
  shows "idx \<in> set (map snd verts)"
proof -
  from assms obtain e where f: "find (\<lambda>e. vertex_eq (fst e) v) verts = Some e" and i: "snd e = idx"
    by (auto simp: map_lookup_def)
  from f have "e \<in> set verts" by (metis find_Some_iff nth_mem)
  with i show ?thesis by force
qed

lemma ordered_Nil: "ordered []"
  by (simp add: ordered_def)

lemma ordered_snoc: "ordered verts \<Longrightarrow> ordered (verts @ [(v, int (length verts))])"
  by (simp add: ordered_def)

lemma ordered_mem: "ordered verts \<Longrightarrow> idx \<in> set (map snd verts) \<Longrightarrow> 0 \<le> idx \<and> idx < int (length verts)"
  by (auto simp: ordered_def)

lemma intern_cases:
  "intern verts v = (verts1, idx) \<Longrightarrow>
     (verts1 = verts \<and> map_lookup verts v = Some idx)
   \<or> (verts1 = verts @ [(v, int (length verts))] \<and> idx = int (length verts)
       \<and> map_lookup verts v = None)"
  by (auto simp: intern_def map_assign_def split: option.splits)

lemma intern_ordered:
  assumes "ordered verts" and "intern verts v = (verts1, idx)"
  shows "ordered verts1 \<and> 0 \<le> idx \<and> idx < int (length verts1) \<and> length verts \<le> length verts1"
  using intern_cases [OF assms(2)] assms(1)
  by (auto simp: ordered_snoc dest: map_lookup_Some_mem ordered_mem)

lemma intern_all_ordered:
  "ordered verts \<Longrightarrow> intern_all verts cs = (verts', idxs) \<Longrightarrow>
   ordered verts' \<and> length verts \<le> length verts' \<and> length idxs = length cs
   \<and> list_all (\<lambda>i. 0 \<le> i \<and> i < int (length verts')) idxs"
proof (induction cs arbitrary: verts idxs)
  case Nil
  then show ?case by simp
next
  case (Cons c cs)
  from Cons.prems(2) obtain verts1 idx idxs1 where
    i1: "intern verts c = (verts1, idx)" and ia: "intern_all verts1 cs = (verts', idxs1)"
    and idxs: "idxs = idx # idxs1"
    by (auto split: prod.splits)
  from intern_ordered [OF Cons.prems(1) i1]
  have o1: "ordered verts1" and r1: "0 \<le> idx" "idx < int (length verts1)"
    and l1: "length verts \<le> length verts1" by auto
  from Cons.IH [OF o1 ia]
  have "ordered verts'" "length verts1 \<le> length verts'" "length idxs1 = length cs"
    "list_all (\<lambda>i. 0 \<le> i \<and> i < int (length verts')) idxs1" by auto
  with r1 l1 idxs show ?case by auto
qed

lemma store_vertices_suffix:
  "length vs = N \<Longrightarrow> map snd es = map int [j..<N] \<Longrightarrow>
   store_vertices vs es = Some (take j vs @ map fst es)"
proof (induction es arbitrary: j vs)
  case Nil
  then have "N \<le> j" by auto
  with Nil show ?case by simp
next
  case (Cons e es)
  obtain v idx where e: "e = (v, idx)" by (cases e) auto
  from Cons.prems(2) have jN: "j < N"
    by (cases "j < N") auto
  then have upt: "[j..<N] = j # [Suc j..<N]" by (simp add: upt_conv_Cons)
  from Cons.prems(2) have idx: "idx = int j" and rest: "map snd es = map int [Suc j..<N]"
    unfolding upt by (simp_all add: e)
  have len: "length (vs[j := v]) = N" using Cons.prems(1) by simp
  have tk: "take (Suc j) (vs[j := v]) = take j vs @ [v]"
    using jN Cons.prems(1) by (simp add: take_Suc_conv_app_nth)
  from Cons.IH [OF len rest] show ?case
    using jN Cons.prems(1) by (simp add: e idx tk)
qed

lemma store_vertices_ordered:
  "ordered verts \<Longrightarrow> store_vertices (replicate (length verts) zeroVertex) verts = Some (map fst verts)"
  using store_vertices_suffix [of "replicate (length verts) zeroVertex" "length verts" verts 0]
  by (simp add: ordered_def)

lemma read_text_pure:
  assumes "read_text L version m r = (n, None, m')"
  shows "\<exists>line r1 cs r2 verts idxs.
           ReadLine r = (line, None, r1)
         \<and> corner_stream L version (3 * Atoi (takeWhile is_digit line)) r1 = (cs, r2)
         \<and> length cs = 3 * Atoi (takeWhile is_digit line)
         \<and> intern_all [] cs = (verts, idxs)
         \<and> Vertices m' = map fst verts \<and> face_corners (Faces m') = idxs"
proof -
  obtain line err r1 where rl: "ReadLine r = (line, err, r1)"
    by (cases "ReadLine r") auto
  from assms rl have e: "err = None"
    by (auto simp: read_text_def split: if_splits)
  define k where "k = Atoi (takeWhile is_digit line)"
  obtain e2 verts faces r2 where
    rf: "read_faces L version [0..<k] ([], replicate k (0, 0, 0), r1) = (e2, (verts, faces, r2))"
    by (cases "read_faces L version [0..<k] ([], replicate k (0, 0, 0), r1)") auto
  from assms rl e rf have e2: "e2 = None"
    by (auto simp: read_text_def Let_def k_def split: option.splits)
  from rf e2 have rf0: "read_faces L version [0..<0 + k] ([], replicate k (0, 0, 0), r1)
       = (None, (verts, faces, r2))" by simp
  from read_faces_pure [OF rf0] obtain cs idxs where
    cs: "corner_stream L version (3 * k) r1 = (cs, r2)" and lcs: "length cs = 3 * k"
    and ia: "intern_all [] cs = (verts, idxs)" and lf: "length faces = k"
    and fc: "face_corners (take k (drop 0 faces)) = idxs"
    by auto
  from intern_all_ordered [OF ordered_Nil ia] have "ordered verts" by simp
  from store_vertices_ordered [OF this]
  have sv: "store_vertices (replicate (length verts) zeroVertex) verts = Some (map fst verts)" .
  from assms rl e rf e2 sv
  have m': "m' = m\<lparr>Faces := faces, Vertices := map fst verts\<rparr>"
    by (simp add: read_text_def Let_def k_def)
  from fc lf have "face_corners faces = idxs" by simp
  with m' rl e cs lcs ia show ?thesis
    unfolding k_def by auto
qed

lemma read_text_in_range:
  assumes "read_text L version m r = (n, None, m')"
  shows "list_all (in_range m') (face_corners (Faces m'))"
proof -
  from read_text_pure [OF assms] obtain cs verts idxs where
    ia: "intern_all [] cs = (verts, idxs)"
    and V: "Vertices m' = map fst verts" and F: "face_corners (Faces m') = idxs"
    by blast
  from intern_all_ordered [OF ordered_Nil ia]
  have "list_all (\<lambda>i. 0 \<le> i \<and> i < int (length verts)) idxs" by simp
  then show ?thesis
    unfolding F by (simp add: in_range_def [abs_def] V)
qed

lemma ReadFrom_text_body:
  assumes "input_version input = Version1_00 \<or> input_version input = Version1_01"
    and "ReadFrom L m input = (n, None, m') \<or> ReadFrom_part_000 L m input = (n, None, m')"
  shows "\<exists>m1. read_text L (input_version input) m1 (snd (snd (ReadLine (NewReader input))))
                 = (n, None, m')"
proof -
  obtain line err r1 where rl: "ReadLine (NewReader input) = (line, err, r1)"
    by (cases "ReadLine (NewReader input)") auto
  from assms(1) rl have v: "VersionFromString line = Version1_00 \<or> VersionFromString line = Version1_01"
    by (simp add: input_version_def)
  from assms(2) show ?thesis
  proof
    assume a: "ReadFrom L m input = (n, None, m')"
    with rl have "err = None" by (auto simp: ReadFrom_def split: if_splits)
    with a rl v have "read_text L (VersionFromString line) m r1 = (n, None, m')"
      by (auto simp: ReadFrom_def Let_def)
    with rl show ?thesis by (auto simp: input_version_def)
  next
    assume a: "ReadFrom_part_000 L m input = (n, None, m')"
    with rl have "err = None" by (auto simp: ReadFrom_part_000_def split: if_splits)
    with a rl v have "read_text L (VersionFromString line)
        (m\<lparr>Version := VersionFromString line, HasColor := False\<rparr>) r1 = (n, None, m')"
      by (auto simp: ReadFrom_part_000_def Let_def)
    with rl show ?thesis by (auto simp: input_version_def)
  qed
qed

lemma first_occurrences_snoc:
  "first_occurrences (xs @ [x]) =
     (if x \<in> set xs then first_occurrences xs else first_occurrences xs @ [x])"
  by (simp add: first_occurrences_def)

lemma set_first_occurrences [simp]: "set (first_occurrences xs) = set xs"
  by (simp add: first_occurrences_def)

lemma distinct_first_occurrences [simp]: "distinct (first_occurrences xs)"
  by (simp add: first_occurrences_def)

lemma first_occurrences_Nil [simp]: "first_occurrences [] = []"
  by (simp add: first_occurrences_def)

lemma ordered_nth: "ordered verts \<Longrightarrow> i < length verts \<Longrightarrow> snd (verts ! i) = int i"
proof -
  assume o: "ordered verts" and i: "i < length verts"
  have "snd (verts ! i) = map snd verts ! i" using i by simp
  also have "\<dots> = map int [0..<length verts] ! i" using o by (simp add: ordered_def)
  also have "\<dots> = int i" using i by simp
  finally show ?thesis .
qed

lemma intern_spec:
  assumes o: "ordered verts" and k: "map fst verts = first_occurrences seen"
    and H: "\<forall>u\<in>insert v (set seen). \<forall>w\<in>insert v (set seen). vertex_eq u w = (u = w)"
    and i: "intern verts v = (verts1, idx)"
  shows "ordered verts1 \<and> map fst verts1 = first_occurrences (seen @ [v])
       \<and> 0 \<le> idx \<and> nat idx < length verts1 \<and> map fst verts1 ! nat idx = v
       \<and> (\<exists>ext. verts1 = verts @ ext)"
proof -
  have keys: "set (map fst verts) = set seen" using k by simp
  from intern_cases [OF i] show ?thesis
  proof
    assume a: "verts1 = verts \<and> map_lookup verts v = Some idx"
    then obtain e where f: "find (\<lambda>e. vertex_eq (fst e) v) verts = Some e" and se: "snd e = idx"
      by (auto simp: map_lookup_def)
    from f obtain j where j: "j < length verts" "vertex_eq (fst (verts ! j)) v" "e = verts ! j"
      by (auto simp: find_Some_iff)
    have mem: "fst (verts ! j) \<in> set seen"
      using j(1) keys by (metis length_map nth_map nth_mem)
    with H j(2) have eq: "fst (verts ! j) = v" by auto
    with mem have vin: "v \<in> set seen" by simp
    have idx: "idx = int j" using se j ordered_nth [OF o j(1)] by simp
    have "map fst verts ! j = v" using eq j(1) by simp
    then have kj: "first_occurrences seen ! j = v" using k by simp
    have lj: "j < length (first_occurrences seen)" using j(1) k by (metis length_map)
    show ?thesis
      using a o k vin idx j(1) kj lj by (simp add: first_occurrences_snoc)
  next
    assume a: "verts1 = verts @ [(v, int (length verts))] \<and> idx = int (length verts)
                \<and> map_lookup verts v = None"
    then have "find (\<lambda>e. vertex_eq (fst e) v) verts = None"
      by (simp add: map_lookup_def)
    then have no: "\<forall>e\<in>set verts. \<not> vertex_eq (fst e) v"
      by (auto simp: find_None_iff)
    have "v \<notin> set seen"
    proof
      assume "v \<in> set seen"
      with keys have "v \<in> fst ` set verts" by simp
      then obtain e where "e \<in> set verts" "fst e = v" by (auto simp: image_iff)
      moreover from H have "vertex_eq v v" by simp
      ultimately show False using no by auto
    qed
    moreover have "length (first_occurrences seen) = length verts"
      using k by (metis length_map)
    ultimately show ?thesis
      using a o k by (simp add: first_occurrences_snoc ordered_snoc nth_append)
  qed
qed

lemma intern_all_spec:
  "ordered verts \<Longrightarrow> map fst verts = first_occurrences seen \<Longrightarrow>
   \<forall>u\<in>set seen \<union> set cs. \<forall>w\<in>set seen \<union> set cs. vertex_eq u w = (u = w) \<Longrightarrow>
   intern_all verts cs = (verts', idxs) \<Longrightarrow>
   ordered verts' \<and> map fst verts' = first_occurrences (seen @ cs)
   \<and> list_all (\<lambda>i. 0 \<le> i \<and> nat i < length verts') idxs
   \<and> map (\<lambda>i. map fst verts' ! nat i) idxs = cs
   \<and> (\<exists>ext. verts' = verts @ ext)"
proof (induction cs arbitrary: verts seen idxs)
  case Nil
  then show ?case by simp
next
  case (Cons c cs)
  from Cons.prems(4) obtain verts1 idx idxs1 where
    i1: "intern verts c = (verts1, idx)" and ia: "intern_all verts1 cs = (verts', idxs1)"
    and idxs: "idxs = idx # idxs1"
    by (auto split: prod.splits)
  have H1: "\<forall>u\<in>insert c (set seen). \<forall>w\<in>insert c (set seen). vertex_eq u w = (u = w)"
    using Cons.prems(3) by simp
  from intern_spec [OF Cons.prems(1,2) H1 i1]
  have o1: "ordered verts1" and k1: "map fst verts1 = first_occurrences (seen @ [c])"
    and r1: "0 \<le> idx" "nat idx < length verts1" and n1: "map fst verts1 ! nat idx = c"
    and e1: "\<exists>ext. verts1 = verts @ ext"
    by auto
  have H2: "\<forall>u\<in>set (seen @ [c]) \<union> set cs. \<forall>w\<in>set (seen @ [c]) \<union> set cs. vertex_eq u w = (u = w)"
    using Cons.prems(3) by simp
  from Cons.IH [OF o1 k1 H2 ia]
  have o': "ordered verts'" and k': "map fst verts' = first_occurrences ((seen @ [c]) @ cs)"
    and r': "list_all (\<lambda>i. 0 \<le> i \<and> nat i < length verts') idxs1"
    and n': "map (\<lambda>i. map fst verts' ! nat i) idxs1 = cs"
    and e': "\<exists>ext. verts' = verts1 @ ext"
    by auto
  from e' obtain ext where ext: "verts' = verts1 @ ext" by blast
  have h: "map fst verts' ! nat idx = c"
    using n1 r1(2) by (simp add: ext nth_append)
  have l: "nat idx < length verts'" using r1(2) by (simp add: ext)
  from e1 ext have "\<exists>ext. verts' = verts @ ext" by auto
  with o' k' r' n' h l r1(1) idxs show ?case by simp
qed

lemma text_corners_read_text:
  assumes "ReadLine (snd (snd (ReadLine (NewReader input)))) = (line, err, r1)"
  shows "text_corners L input =
           fst (corner_stream L (input_version input) (3 * Atoi (takeWhile is_digit line)) r1)"
  using assms by (cases "ReadLine (NewReader input)") (auto simp: text_corners_def input_version_def)

subsection \<open>The two example files\<close>

lemma two_lines:
  assumes v: "v = Version1_00 \<or> v = Version1_01"
    and cnt: "0x0A \<notin> set cnt" "cnt = [] \<or> last cnt \<noteq> 0x0D"
    and len: "length cnt + length body \<le> 4000"
  shows "ReadLine (NewReader (bytes_Reader (Version_String v @ 0x0A # cnt @ 0x0A # body)))
           = (Version_String v, None,
              \<lparr>src = [], nread = 14 + length cnt + length body,
               bufd = cnt @ 0x0A # body, perr = None\<rparr>)"
    and "ReadLine \<lparr>src = [], nread = 14 + length cnt + length body,
                    bufd = cnt @ 0x0A # body, perr = None\<rparr>
           = (cnt, None,
              \<lparr>src = [], nread = 14 + length cnt + length body, bufd = body, perr = None\<rparr>)"
proof -
  let ?s = "Version_String v"
  let ?rest = "cnt @ 0x0A # body"
  have "ReadLine (NewReader (bytes_Reader (?s @ 0x0A # ?rest))) =
          (?s, None, \<lparr>src = bytes_Reader (drop 4096 (?s @ 0x0A # ?rest)),
             nread = min 4096 (Suc (length ?s + length ?rest)),
             bufd = take (4095 - length ?s) ?rest, perr = None\<rparr>)"
    by (rule ReadLine_first) (simp_all add: no_newline_in_signature length_signature last_signature)
  then show "ReadLine (NewReader (bytes_Reader (?s @ 0x0A # ?rest)))
           = (?s, None, \<lparr>src = [], nread = 14 + length cnt + length body,
               bufd = ?rest, perr = None\<rparr>)"
    using len by (simp add: length_signature bytes_Reader_Nil)
  let ?r1 = "\<lparr>src = [], nread = 14 + length cnt + length body, bufd = ?rest, perr = None\<rparr>"
  have b: "bufd ?r1 = cnt @ 0x0A # body" by simp
  from ReadLine_found [OF b cnt]
  show "ReadLine ?r1 = (cnt, None,
          \<lparr>src = [], nread = 14 + length cnt + length body, bufd = body, perr = None\<rparr>)"
    by simp
qed

lemmas scan_defs =
  ex_Fscanf_def ex_triple_def ex_lit_def ex_number_def bytes_def
  f64_NaN_def f64_1_def f64_2_def f64_half_def

lemmas eq_defs = map_lookup_def map_assign_def vertex_eq_def vec_eq_def feq_def isNaN_def

lemma ex_text_split:
  "ex_text_input = Version_String Version1_01 @ 0x0A # [0x31] @ 0x0A #
      bytes ''[0,0,0][0,0,0][0,0,0][1,0,0][0,0,0][0,0,0][0,0,0][0,0,0][0,0,0]''"
  by (simp add: ex_text_input_def version_defs bytes_def)

lemma ex_nan_split:
  "ex_nan_input = Version_String Version1_01 @ 0x0A # [0x31] @ 0x0A #
      bytes ''[NaN,0,0][0,0,0][0,0,0][NaN,0,0][0,0,0][0,0,0][NaN,0,0][0,0,0][0,0,0]''"
  by (simp add: ex_nan_input_def version_defs bytes_def)

lemma Atoi_one: "Atoi (takeWhile is_digit [0x31]) = 1"
  by (simp add: Atoi_def is_digit_def decimal_def)

lemma ex_text_stream:
  "corner_stream exampleLib Version1_01 3
     \<lparr>src = [], nread = 78,
      bufd = bytes ''[0,0,0][0,0,0][0,0,0][1,0,0][0,0,0][0,0,0][0,0,0][0,0,0][0,0,0]'', perr = None\<rparr>
   = ([ex_vertex_a, ex_vertex_b, ex_vertex_a], \<lparr>src = [], nread = 78, bufd = [], perr = None\<rparr>)"
  by (simp add: numeral_3_eq_3 exampleLib_def scan_defs corner_vertex_def ex_fsub_def ex_fmul_def
        version_defs ex_vertex_a_def ex_vertex_b_def)


lemma ex_text_read:
  "read_text exampleLib Version1_01 m
     \<lparr>src = [], nread = 78,
      bufd = 0x31 # 0x0A # bytes ''[0,0,0][0,0,0][0,0,0][1,0,0][0,0,0][0,0,0][0,0,0][0,0,0][0,0,0]'',
      perr = None\<rparr>
   = (78, None, m\<lparr>Faces := [(0, 1, 0)], Vertices := [ex_vertex_a, ex_vertex_b]\<rparr>)"
proof -
  let ?body = "bytes ''[0,0,0][0,0,0][0,0,0][1,0,0][0,0,0][0,0,0][0,0,0][0,0,0][0,0,0]''"
  let ?r = "\<lparr>src = [], nread = 78, bufd = 0x31 # 0x0A # ?body, perr = None\<rparr>"
  have b: "bufd ?r = [0x31] @ 0x0A # ?body" by simp
  have RL: "ReadLine ?r = ([0x31], None, ?r\<lparr>bufd := ?body\<rparr>)"
    by (rule ReadLine_found [OF b]) simp_all
  have a: "is_digit 0x31" "Atoi [0x31] = 1"
    by (simp_all add: Atoi_def is_digit_def decimal_def)
  show ?thesis
    unfolding read_text_def RL
    by (simp add: a Let_def exampleLib_def scan_defs corner_vertex_def ex_fsub_def ex_fmul_def
        version_defs eq_defs set_index_def zeroVertex_def ex_vertex_a_def ex_vertex_b_def)
qed

lemma ex_nan_read:
  "read_text exampleLib Version1_01 m
     \<lparr>src = [], nread = 84,
      bufd = 0x31 # 0x0A # bytes ''[NaN,0,0][0,0,0][0,0,0][NaN,0,0][0,0,0][0,0,0][NaN,0,0][0,0,0][0,0,0]'',
      perr = None\<rparr>
   = (84, None, m\<lparr>Faces := [(0, 1, 2)],
                    Vertices := [ex_vertex_nan, ex_vertex_nan, ex_vertex_nan]\<rparr>)"
proof -
  let ?body = "bytes ''[NaN,0,0][0,0,0][0,0,0][NaN,0,0][0,0,0][0,0,0][NaN,0,0][0,0,0][0,0,0]''"
  let ?r = "\<lparr>src = [], nread = 84, bufd = 0x31 # 0x0A # ?body, perr = None\<rparr>"
  have b: "bufd ?r = [0x31] @ 0x0A # ?body" by simp
  have RL: "ReadLine ?r = ([0x31], None, ?r\<lparr>bufd := ?body\<rparr>)"
    by (rule ReadLine_found [OF b]) simp_all
  have a: "is_digit 0x31" "Atoi [0x31] = 1"
    by (simp_all add: Atoi_def is_digit_def decimal_def)
  show ?thesis
    unfolding read_text_def RL
    by (simp add: a Let_def exampleLib_def scan_defs corner_vertex_def ex_fsub_def ex_fmul_def
        version_defs eq_defs set_index_def zeroVertex_def ex_vertex_nan_def)
qed

lemma ex_nan_stream:
  "corner_stream exampleLib Version1_01 3
     \<lparr>src = [], nread = 84,
      bufd = bytes ''[NaN,0,0][0,0,0][0,0,0][NaN,0,0][0,0,0][0,0,0][NaN,0,0][0,0,0][0,0,0]'', perr = None\<rparr>
   = ([ex_vertex_nan, ex_vertex_nan, ex_vertex_nan], \<lparr>src = [], nread = 84, bufd = [], perr = None\<rparr>)"
  by (simp add: numeral_3_eq_3 exampleLib_def scan_defs corner_vertex_def ex_fsub_def ex_fmul_def
        version_defs ex_vertex_nan_def)

lemma ex_text_lines:
  "ReadLine (NewReader (bytes_Reader ex_text_input)) =
     (Version_String Version1_01, None,
      \<lparr>src = [], nread = 78,
       bufd = 0x31 # 0x0A # bytes ''[0,0,0][0,0,0][0,0,0][1,0,0][0,0,0][0,0,0][0,0,0][0,0,0][0,0,0]'',
       perr = None\<rparr>)"
proof -
  let ?body = "bytes ''[0,0,0][0,0,0][0,0,0][1,0,0][0,0,0][0,0,0][0,0,0][0,0,0][0,0,0]''"
  have v: "Version1_01 = Version1_00 \<or> Version1_01 = Version1_01" by simp
  have c: "0x0A \<notin> set [0x31 :: byte]" "[0x31 :: byte] = [] \<or> last [0x31 :: byte] \<noteq> 0x0D" by simp_all
  have l: "length [0x31 :: byte] + length ?body \<le> 4000" by (simp add: bytes_def)
  from two_lines(1) [OF v c l] show ?thesis
    unfolding ex_text_split by (simp add: bytes_def)
qed

lemma ex_nan_lines:
  "ReadLine (NewReader (bytes_Reader ex_nan_input)) =
     (Version_String Version1_01, None,
      \<lparr>src = [], nread = 84,
       bufd = 0x31 # 0x0A # bytes ''[NaN,0,0][0,0,0][0,0,0][NaN,0,0][0,0,0][0,0,0][NaN,0,0][0,0,0][0,0,0]'',
       perr = None\<rparr>)"
proof -
  let ?body = "bytes ''[NaN,0,0][0,0,0][0,0,0][NaN,0,0][0,0,0][0,0,0][NaN,0,0][0,0,0][0,0,0]''"
  have v: "Version1_01 = Version1_00 \<or> Version1_01 = Version1_01" by simp
  have c: "0x0A \<notin> set [0x31 :: byte]" "[0x31 :: byte] = [] \<or> last [0x31 :: byte] \<noteq> 0x0D" by simp_all
  have l: "length [0x31 :: byte] + length ?body \<le> 4000" by (simp add: bytes_def)
  from two_lines(1) [OF v c l] show ?thesis
    unfolding ex_nan_split by (simp add: bytes_def)
qed

lemma text_version_1_01: "VersionFromString (Version_String Version1_01) = Version1_01"
  by (rule VersionFromString_String) simp

lemma ex_text_version: "input_version (bytes_Reader ex_text_input) = Version1_01"
  by (simp add: input_version_def ex_text_lines text_version_1_01)

lemma ex_nan_version: "input_version (bytes_Reader ex_nan_input) = Version1_01"
  by (simp add: input_version_def ex_nan_lines text_version_1_01)

lemma ex_text_decode:
  "ReadFrom exampleLib m (bytes_Reader ex_text_input)
     = (78, None, m\<lparr>Faces := [(0, 1, 0)], Vertices := [ex_vertex_a, ex_vertex_b]\<rparr>)"
  unfolding ReadFrom_def ex_text_lines
  by (simp add: text_version_1_01 ex_text_read Let_def)

lemma ex_nan_decode:
  "ReadFrom exampleLib m (bytes_Reader ex_nan_input)
     = (84, None, m\<lparr>Faces := [(0, 1, 2)],
                      Vertices := [ex_vertex_nan, ex_vertex_nan, ex_vertex_nan]\<rparr>)"
  unfolding ReadFrom_def ex_nan_lines
  by (simp add: text_version_1_01 ex_nan_read Let_def)

lemma ex_line_2:
  "ReadLine \<lparr>src = [], nread = n, bufd = 0x31 # 0x0A # body, perr = None\<rparr>
     = ([0x31], None, \<lparr>src = [], nread = n, bufd = body, perr = None\<rparr>)"
proof -
  have b: "bufd \<lparr>src = [], nread = n, bufd = 0x31 # 0x0A # body, perr = None\<rparr>
             = [0x31] @ 0x0A # body" by simp
  show ?thesis by (rule ReadLine_found [OF b, THEN trans]) simp_all
qed

lemma ex_text_corners: "text_corners exampleLib (bytes_Reader ex_text_input) = [ex_vertex_a, ex_vertex_b, ex_vertex_a]"
  unfolding text_corners_def ex_text_lines
  by (simp add: ex_line_2 text_version_1_01 Atoi_one [simplified] Atoi_one ex_text_stream)

lemma ex_nan_corners:
  "text_corners exampleLib (bytes_Reader ex_nan_input) = [ex_vertex_nan, ex_vertex_nan, ex_vertex_nan]"
  unfolding text_corners_def ex_nan_lines
  by (simp add: ex_line_2 text_version_1_01 Atoi_one [simplified] Atoi_one ex_nan_stream)

lemma ex_vertex_eq:
  "vertex_eq ex_vertex_a ex_vertex_a" "vertex_eq ex_vertex_b ex_vertex_b"
  "\<not> vertex_eq ex_vertex_a ex_vertex_b" "\<not> vertex_eq ex_vertex_b ex_vertex_a"
  "ex_vertex_a \<noteq> ex_vertex_b" "\<not> vertex_eq ex_vertex_nan ex_vertex_nan"
  by (simp_all add: eq_defs ex_vertex_a_def ex_vertex_b_def ex_vertex_nan_def f64_1_def f64_NaN_def)

subsection \<open>The order of the range over the map, and \<open>==\<close> on plain values\<close>

lemma store_vertices_fold:
  "list_all (\<lambda>e. 0 \<le> snd e \<and> snd e < int (length vs)) es \<Longrightarrow>
   store_vertices vs es = Some (fold (\<lambda>e xs. xs[nat (snd e) := fst e]) es vs)"
proof (induction es arbitrary: vs)
  case Nil
  then show ?case by simp
next
  case (Cons e es)
  obtain v idx where e: "e = (v, idx)" by (cases e) auto
  from Cons.prems have r: "0 \<le> idx" "idx < int (length vs)"
    and rest: "list_all (\<lambda>e. 0 \<le> snd e \<and> snd e < int (length (vs[nat idx := v]))) es"
    by (simp_all add: e)
  from Cons.IH [OF rest] r show ?case by (simp add: e)
qed

lemma ordered_distinct: "ordered verts \<Longrightarrow> distinct (map snd verts)"
  by (simp add: ordered_def distinct_map)

lemma store_vertices_any_order:
  assumes o: "ordered verts" and p: "mset es = mset verts"
  shows "store_vertices (replicate (length verts) zeroVertex) es = Some (map fst verts)"
proof -
  let ?f = "\<lambda>e xs. xs[nat (snd e) := fst (e :: MeshVertex \<times> int)]"
  let ?vs = "replicate (length verts) zeroVertex"
  have s: "set es = set verts" using p by (rule mset_eq_setD)
  have rng: "\<And>e. e \<in> set verts \<Longrightarrow> 0 \<le> snd e \<and> snd e < int (length verts)"
    using ordered_mem [OF o] by auto
  have r1: "list_all (\<lambda>e. 0 \<le> snd e \<and> snd e < int (length ?vs)) es"
    using rng s by (auto simp: list_all_iff)
  have r2: "list_all (\<lambda>e. 0 \<le> snd e \<and> snd e < int (length ?vs)) verts"
    using rng by (auto simp: list_all_iff)
  have inj: "\<And>x y. x \<in> set verts \<Longrightarrow> y \<in> set verts \<Longrightarrow> snd x = snd y \<Longrightarrow> x = y"
    using ordered_distinct [OF o] by (metis distinct_map inj_onD)
  have comm: "\<And>x y. x \<in> set es \<Longrightarrow> y \<in> set es \<Longrightarrow> ?f x \<circ> ?f y = ?f y \<circ> ?f x"
  proof -
    fix x y assume xy: "x \<in> set es" "y \<in> set es"
    show "?f x \<circ> ?f y = ?f y \<circ> ?f x"
    proof (cases "x = y")
      case True
      then show ?thesis by simp
    next
      case False
      have "snd x \<noteq> snd y"
      proof
        assume "snd x = snd y"
        with inj [of x y] xy s have "x = y" by simp
        with False show False by simp
      qed
      moreover have "0 \<le> snd x" "0 \<le> snd y" using rng [of x] rng [of y] xy s by auto
      ultimately have "nat (snd x) \<noteq> nat (snd y)" by simp
      then show ?thesis by (auto simp: fun_eq_iff list_update_swap)
    qed
  qed
  have "fold ?f es = fold ?f verts"
    by (rule fold_multiset_equiv [OF comm p])
  then have "store_vertices ?vs es = store_vertices ?vs verts"
    by (simp add: store_vertices_fold [OF r1] store_vertices_fold [OF r2])
  with store_vertices_ordered [OF o] show ?thesis by simp
qed

lemma bit_sign: "bit (0x8000000000000000 :: 64 word) n = (n = 63)"
proof -
  have "(0x8000000000000000 :: 64 word) = 2 ^ 63" by simp
  then show ?thesis by (simp only: bit_exp_iff) (auto simp: possible_bit_word)
qed

lemma low_bits_zero:
  assumes "(a :: 64 word) AND 0x7FFFFFFFFFFFFFFF = 0"
  shows "a = 0 \<or> a = 0x8000000000000000"
proof -
  have m: "(0x7FFFFFFFFFFFFFFF :: 64 word) = mask 63"
    by (simp add: mask_eq_exp_minus_1)
  have low: "\<And>n. n < 63 \<Longrightarrow> \<not> bit a n"
  proof
    fix n assume n: "n < 63" and b: "bit a n"
    then have "bit (a AND mask 63) n" by (simp add: bit_simps)
    with assms m show False by simp
  qed
  show ?thesis
  proof (cases "bit a 63")
    case True
    have "a = 0x8000000000000000"
    proof (rule bit_word_eqI)
      fix n assume "n < LENGTH(64)"
      then have "n < 63 \<or> n = 63" by auto
      then show "bit a n = bit (0x8000000000000000 :: 64 word) n"
        unfolding bit_sign using low True by auto
    qed
    then show ?thesis by simp
  next
    case False
    have "a = 0"
    proof (rule bit_word_eqI)
      fix n assume "n < LENGTH(64)"
      then have "n < 63 \<or> n = 63" by auto
      then show "bit a n = bit (0 :: 64 word) n"
        using low False by auto
    qed
    then show ?thesis by simp
  qed
qed

lemma feq_plain: "plain a \<Longrightarrow> plain b \<Longrightarrow> feq a b = (a = b)"
  using low_bits_zero [of a] low_bits_zero [of b]
  by (auto simp: feq_def plain_def)

lemma vec_eq_plain: "plain_vec u \<Longrightarrow> plain_vec v \<Longrightarrow> vec_eq u v = (u = v)"
  by (cases u; cases v) (auto simp: vec_eq_def plain_vec_def feq_plain)

lemma vertex_eq_plain: "plain_vertex u \<Longrightarrow> plain_vertex v \<Longrightarrow> vertex_eq u v = (u = v)"
  by (cases u; cases v) (auto simp: vertex_eq_def plain_vertex_def vec_eq_plain)

lemma plain_corners_agree:
  "list_all plain_vertex cs \<Longrightarrow> \<forall>u\<in>set cs. \<forall>v\<in>set cs. vertex_eq u v = (u = v)"
  by (auto simp: list_all_iff vertex_eq_plain)

subsection \<open>Readers that hand out the input in pieces\<close>

lemma fill_piece:
  assumes "src r = (p, None) # others" and "p \<noteq> []" and "length (bufd r) < defaultBufSize"
  shows "fill r =
           (if length p \<le> defaultBufSize - length (bufd r)
            then r\<lparr>src := others, nread := nread r + length p, bufd := bufd r @ p\<rparr>
            else r\<lparr>src := (drop (defaultBufSize - length (bufd r)) p, None) # others,
                   nread := nread r + (defaultBufSize - length (bufd r)),
                   bufd := bufd r @ take (defaultBufSize - length (bufd r)) p\<rparr>)"
  using assms by (simp add: fill_unfold rr_Read_def Let_def)

lemma bufio_Read_buffered:
  assumes "bufd r = lo # hi # t"
  shows "bufio_Read r 2 = ([lo, hi], None, r\<lparr>bufd := t\<rparr>)"
  using assms by (simp add: bufio_Read_def)

lemma bufio_Read_piece:
  assumes "bufd r = []" and "perr r = None" and "src r = (lo # hi # q, None) # others"
  shows "\<exists>r2. bufio_Read r 2 = ([lo, hi], None, r2)
              \<and> nread r2 = nread r + min defaultBufSize (2 + length q)"
  using assms by (auto simp: bufio_Read_def rr_Read_def defaultBufSize_def take_Cons')

lemma read_binary_header_size_read:
  assumes "bufio_Read r 2 = ([lo, hi], None, r2)" and "unat (Uint16 [lo, hi] 0) \<noteq> nHeader"
  shows "read_binary L m r = (nread r2, Some UnexpectedHeaderSize, m)"
  using assms
  by (simp add: read_binary_def read_into_def nHeaderSize_def Let_def Uint16_def replicate_nColor)

lemma take_line:
  assumes "length s < n"
  shows "take n (s @ 0x0A # y) = s @ 0x0A # take (n - length s - 1) y"
  using assms by (simp add: take_Cons')

lemma prefix_no_newline:
  assumes "acc @ c = s @ y" and "length acc \<le> length s" and "(0x0A :: byte) \<notin> set s"
  shows "0x0A \<notin> set acc"
proof -
  from assms(1,2) have "acc = take (length acc) s"
    by (metis append_eq_conv_conj take_append take_all_iff diff_is_0_eq' take_0 append_Nil2)
  then have "set acc \<subseteq> set s"
    by (metis set_take_subset)
  with assms(3) show ?thesis by auto
qed

text \<open>
  The signature line and the first \<open>Read\<close> of the binary decoder, on a reader that
  hands out non-empty pieces: if no piece ends between the two bytes after the line, the
  \<open>Read\<close> gives both. \<open>s\<close> is the line without its newline.
\<close>

lemma header_pieces:
  assumes "0x0A \<notin> set s" and "length s \<le> 13"
    and "[] \<notin> set ps"
    and "bufd r @ concat ps = s @ 0x0A # lo # hi # rest"
    and "length (bufd r) \<le> length s"
    and "src r = pieces_Reader ps"
    and "perr r = None"
    and "\<forall>k\<le>length ps. length (bufd r) + length (concat (take k ps)) \<noteq> length s + 2"
  shows "\<exists>r1 r2. ReadSlice r = (s @ [0x0A], None, r1)
           \<and> bufio_Read r1 2 = ([lo, hi], None, r2)
           \<and> nread r + (length s + 3 - length (bufd r)) \<le> nread r2
           \<and> nread r2 \<le> nread r + length (concat ps)"
  using assms(3-8)
proof (induction ps arbitrary: r)
  case Nil
  then show ?case by (auto dest: arg_cong [where f = length])
next
  case (Cons p ps)
  let ?W = "s @ 0x0A # lo # hi # rest"
  let ?acc = "bufd r"
  let ?k = "defaultBufSize - length ?acc"
  have pne: "p \<noteq> []" and psne: "[] \<notin> set ps" using Cons.prems(1) by auto
  have W: "?acc @ p @ concat ps = ?W" using Cons.prems(2) by simp
  have nl: "0x0A \<notin> set ?acc"
    using prefix_no_newline [OF Cons.prems(2) Cons.prems(3) assms(1)] .
  have small: "length ?acc < defaultBufSize"
    using Cons.prems(3) assms(2) by (simp add: defaultBufSize_def)
  have src: "src r = (p, None) # pieces_Reader ps"
    using Cons.prems(4) by (simp add: pieces_Reader_def)
  have RS: "ReadSlice r = ReadSlice (fill r)"
    using nl small Cons.prems(5) by (subst ReadSlice.simps) simp
  note F = fill_piece [OF src pne small]
  show ?case
  proof (cases "length ?acc + length p \<le> length s")
    case True
    then have fit: "length p \<le> ?k"
      using assms(2) by (simp add: defaultBufSize_def)
    let ?r' = "r\<lparr>src := pieces_Reader ps, nread := nread r + length p, bufd := ?acc @ p\<rparr>"
    have Fr: "fill r = ?r'" using F fit by simp
    have 1: "bufd ?r' @ concat ps = ?W" using W by simp
    have 2: "length (bufd ?r') \<le> length s" using True by simp
    have 3: "src ?r' = pieces_Reader ps" by simp
    have 4: "perr ?r' = None" using Cons.prems(5) by simp
    have 5: "\<forall>k\<le>length ps. length (bufd ?r') + length (concat (take k ps)) \<noteq> length s + 2"
    proof (intro allI impI)
      fix k assume "k \<le> length ps"
      then have "Suc k \<le> length (p # ps)" by simp
      from Cons.prems(6) [rule_format, OF this] show
        "length (bufd ?r') + length (concat (take k ps)) \<noteq> length s + 2"
        by simp
    qed
    from Cons.IH [OF psne 1 2 3 4 5] obtain r1 r2 where
      a: "ReadSlice ?r' = (s @ [0x0A], None, r1)"
      and b: "bufio_Read r1 2 = ([lo, hi], None, r2)"
      and c: "nread ?r' + (length s + 3 - length (bufd ?r')) \<le> nread r2"
      and d: "nread r2 \<le> nread ?r' + length (concat ps)"
      by blast
    have "ReadSlice r = (s @ [0x0A], None, r1)" using RS Fr a by simp
    moreover have "nread r + (length s + 3 - length ?acc) \<le> nread r2" using c True by simp
    moreover have "nread r2 \<le> nread r + length (concat (p # ps))" using d by simp
    ultimately show ?thesis using b by blast
  next
    case False
    define N where "N = length ?acc + min ?k (length p)"
    have N: "length s < N"
      using False assms(2) Cons.prems(3) by (auto simp: N_def defaultBufSize_def min_def)
    have bf: "bufd (fill r) = ?acc @ take ?k p"
      using F by simp
    have "?acc @ take ?k p = take N (?acc @ p @ concat ps)"
      by (simp add: N_def min_def)
    then have buf: "bufd (fill r) = s @ 0x0A # take (N - length s - 1) (lo # hi # rest)"
      unfolding bf W using take_line [OF N] by simp
    define t where "t = take (N - length s - 1) (lo # hi # rest)"
    have RS2: "ReadSlice r = (s @ [0x0A], None, (fill r)\<lparr>bufd := t\<rparr>)"
      unfolding RS t_def by (rule ReadSlice_found [OF buf assms(1)])
    have nf: "nread (fill r) = nread r + min ?k (length p)"
      using F by (simp add: min_def)
    have up: "nread (fill r) \<le> nread r + length (concat (p # ps))"
      using nf by simp
    consider (two) "N \<ge> length s + 3" | (one) "N = length s + 2" | (none) "N = length s + 1"
      using N by atomize_elim arith
    then show ?thesis
    proof cases
      case two
      then obtain t' where t: "t = lo # hi # t'"
        by (cases "N - length s - 1") (auto simp: t_def take_Cons')
      have "bufd ((fill r)\<lparr>bufd := t\<rparr>) = lo # hi # t'" using t by simp
      from bufio_Read_buffered [OF this]
      have b: "bufio_Read ((fill r)\<lparr>bufd := t\<rparr>) 2 = ([lo, hi], None, (fill r)\<lparr>bufd := t'\<rparr>)"
        by simp
      have "nread ((fill r)\<lparr>bufd := t'\<rparr>) = nread r + min ?k (length p)"
        using nf by simp
      with two have c: "nread r + (length s + 3 - length ?acc) \<le> nread ((fill r)\<lparr>bufd := t'\<rparr>)"
        unfolding N_def by arith
      have d: "nread ((fill r)\<lparr>bufd := t'\<rparr>) \<le> nread r + length (concat (p # ps))"
        using up by simp
      from RS2 b c d show ?thesis by blast
    next
      case one
      have "length p \<le> ?k"
      proof (rule ccontr)
        assume "\<not> length p \<le> ?k"
        then have "N = defaultBufSize" using small by (simp add: N_def min_def)
        with one assms(2) show False by (simp add: defaultBufSize_def)
      qed
      then have "length ?acc + length (concat (take 1 (p # ps))) = length s + 2"
        using one by (auto simp: N_def min_def split: if_splits)
      moreover have "1 \<le> length (p # ps)" by simp
      ultimately show ?thesis using Cons.prems(6) by blast
    next
      case none
      have fit: "length p \<le> ?k"
      proof (rule ccontr)
        assume "\<not> length p \<le> ?k"
        then have "N = defaultBufSize" using small by (simp add: N_def min_def)
        with none assms(2) show False by (simp add: defaultBufSize_def)
      qed
      have lp: "length ?acc + length p = length s + 1"
        using none fit by (auto simp: N_def min_def split: if_splits)
      have tnil: "t = []" using none by (simp add: t_def)
      let ?r1 = "(fill r)\<lparr>bufd := t\<rparr>"
      have Fr: "fill r = r\<lparr>src := pieces_Reader ps, nread := nread r + length p, bufd := ?acc @ p\<rparr>"
        using F fit by simp
      have "drop (length s + 1) (?acc @ p @ concat ps) = concat ps"
        using lp by simp
      then have cps: "concat ps = lo # hi # rest"
        unfolding W by simp
      then obtain q qs where ps: "ps = q # qs" by (cases ps) auto
      have qne: "q \<noteq> []" using psne ps by auto
      have "length ?acc + length (concat (take 2 (p # ps))) \<noteq> length s + 2"
        using Cons.prems(6) [rule_format, of 2] ps by simp
      then have "length q \<noteq> 1"
        using lp ps by (simp add: numeral_2_eq_2)
      moreover have "length q \<noteq> 0" using qne by simp
      ultimately have "2 \<le> length q" by arith
      with cps ps obtain q' where q: "q = lo # hi # q'"
        by (cases q; cases "tl q") auto
      have s1: "bufd ?r1 = []" using tnil by simp
      have s2: "perr ?r1 = None" using Fr Cons.prems(5) by simp
      have s3: "src ?r1 = (lo # hi # q', None) # pieces_Reader qs"
        using Fr ps q by (simp add: pieces_Reader_def)
      from bufio_Read_piece [OF s1 s2 s3] obtain r2 where
        b: "bufio_Read ?r1 2 = ([lo, hi], None, r2)"
        and n2: "nread r2 = nread ?r1 + min defaultBufSize (2 + length q')"
        by blast
      have n1: "nread ?r1 = nread r + length p" using Fr by simp
      have c: "nread r + (length s + 3 - length ?acc) \<le> nread r2"
        using n1 n2 lp by (simp add: defaultBufSize_def)
      have d: "nread r2 \<le> nread r + length (concat (p # ps))"
        using n1 n2 ps q by simp
      from RS2 b c d show ?thesis by blast
    qed
  qed
qed

lemma ReadLine_of_ReadSlice:
  assumes "ReadSlice r = (s @ eol, None, r1)" and "eol = [0x0A] \<or> eol = [0x0D, 0x0A]"
    and "s \<noteq> []" and "last s \<noteq> 0x0D"
  shows "ReadLine r = (s, None, r1)"
proof -
  have "(s @ [0x0A]) ! (length s - Suc 0) = last s"
    using assms(3) by (simp add: nth_append last_conv_nth)
  with assms show ?thesis
    by (auto simp: ReadLine_def nth_append)
qed

lemma pieces_Reader_one: "input \<noteq> [] \<Longrightarrow> pieces_Reader [input] = bytes_Reader input"
  by (simp add: pieces_Reader_def bytes_Reader_def)

lemma ReadFrom_header_size_pieces:
  assumes eol: "eol = [0x0A] \<or> eol = [0x0D, 0x0A]"
    and hs: "unat (Uint16 [lo, hi] 0) \<noteq> nHeader"
    and cat: "concat ps = Version_String Version2_00 @ eol @ lo # hi # rest"
    and ne: "[] \<notin> set ps"
    and nb: "\<forall>k\<le>length ps. length (concat (take k ps))
                \<noteq> length (Version_String Version2_00 @ eol @ [lo])"
  shows "\<exists>n. ReadFrom L m (pieces_Reader ps) = (n, Some UnexpectedHeaderSize, m)
           \<and> ReadFrom_part_000 L m (pieces_Reader ps)
               = (n, Some UnexpectedHeaderSize, m\<lparr>Version := Version2_00\<rparr>)
           \<and> length (Version_String Version2_00 @ eol @ [lo, hi]) \<le> n
           \<and> n \<le> length (concat ps)"
proof -
  let ?sig = "Version_String Version2_00"
  define s where "s = ?sig @ butlast eol"
  have eols: "?sig @ eol = s @ [0x0A]"
    using eol by (auto simp: s_def)
  have ls: "length s + 1 = length ?sig + length eol"
    using eol by (auto simp: s_def)
  have 1: "0x0A \<notin> set s"
    using eol no_newline_in_signature [of Version2_00] by (auto simp: s_def)
  have 2: "length s \<le> 13"
    using eol by (auto simp: s_def length_signature)
  let ?r = "NewReader (pieces_Reader ps)"
  have 3: "bufd ?r @ concat ps = s @ 0x0A # lo # hi # rest"
    using eols cat by (simp add: NewReader_def)
  have 4: "length (bufd ?r) \<le> length s" by (simp add: NewReader_def)
  have 5: "src ?r = pieces_Reader ps" by (simp add: NewReader_def)
  have 6: "perr ?r = None" by (simp add: NewReader_def)
  have 7: "\<forall>k\<le>length ps. length (bufd ?r) + length (concat (take k ps)) \<noteq> length s + 2"
    using nb ls by (simp add: NewReader_def)
  from header_pieces [OF 1 2 ne 3 4 5 6 7] obtain r1 r2 where
    rs: "ReadSlice ?r = (s @ [0x0A], None, r1)"
    and rd: "bufio_Read r1 2 = ([lo, hi], None, r2)"
    and lo: "nread ?r + (length s + 3 - length (bufd ?r)) \<le> nread r2"
    and up: "nread r2 \<le> nread ?r + length (concat ps)"
    by blast
  have rs': "ReadSlice ?r = (?sig @ eol, None, r1)"
    using rs eols by simp
  have sne: "?sig \<noteq> []"
    using length_signature [of Version2_00] by auto
  have RL: "ReadLine ?r = (?sig, None, r1)"
    by (rule ReadLine_of_ReadSlice [OF rs' eol sne last_signature])
  have v: "VersionFromString ?sig = Version2_00"
    by (rule VersionFromString_String) simp
  have nv: "Version2_00 \<noteq> Version1_00" "Version2_00 \<noteq> Version1_01"
    by (simp_all add: version_defs)
  note RB = read_binary_header_size_read [OF rd hs]
  have a: "ReadFrom L m (pieces_Reader ps) = (nread r2, Some UnexpectedHeaderSize, m)"
    unfolding ReadFrom_def RL using v nv RB [of L m] by (simp add: Let_def)
  have b: "ReadFrom_part_000 L m (pieces_Reader ps)
             = (nread r2, Some UnexpectedHeaderSize, m\<lparr>Version := Version2_00\<rparr>)"
    unfolding ReadFrom_part_000_def RL
    using v nv RB [of L "m\<lparr>Version := Version2_00\<rparr>"] by (simp add: Let_def)
  have c: "length (?sig @ eol @ [lo, hi]) \<le> nread r2"
    using lo ls by (simp add: NewReader_def)
  have d: "nread r2 \<le> length (concat ps)"
    using up by (simp add: NewReader_def)
  from a b c d show ?thesis by blast
qed

text \<open>
  The signature line alone, on such a reader: the line is found however the pieces are
  cut, and what the buffer and the reader hold afterwards is the rest of the input.
\<close>

lemma line_pieces:
  assumes "0x0A \<notin> set s" and "length s < 4000"
    and "[] \<notin> set ps"
    and "bufd r @ concat ps = s @ 0x0A # rest"
    and "length (bufd r) \<le> length s"
    and "src r = pieces_Reader ps"
    and "perr r = None"
  shows "\<exists>r1 qs. ReadSlice r = (s @ [0x0A], None, r1) \<and> perr r1 = None
           \<and> src r1 = pieces_Reader qs \<and> [] \<notin> set qs \<and> bufd r1 @ concat qs = rest"
  using assms(3-7)
proof (induction ps arbitrary: r)
  case Nil
  then show ?case by (auto dest: arg_cong [where f = length])
next
  case (Cons p ps)
  let ?W = "s @ 0x0A # rest"
  let ?acc = "bufd r"
  let ?k = "defaultBufSize - length ?acc"
  have pne: "p \<noteq> []" and psne: "[] \<notin> set ps" using Cons.prems(1) by auto
  have W: "?acc @ p @ concat ps = ?W" using Cons.prems(2) by simp
  have nl: "0x0A \<notin> set ?acc"
    using prefix_no_newline [OF Cons.prems(2) Cons.prems(3) assms(1)] .
  have small: "length ?acc < defaultBufSize"
    using Cons.prems(3) assms(2) by (simp add: defaultBufSize_def)
  have src: "src r = (p, None) # pieces_Reader ps"
    using Cons.prems(4) by (simp add: pieces_Reader_def)
  have RS: "ReadSlice r = ReadSlice (fill r)"
    using nl small Cons.prems(5) by (subst ReadSlice.simps) simp
  note F = fill_piece [OF src pne small]
  show ?case
  proof (cases "length ?acc + length p \<le> length s")
    case True
    then have fit: "length p \<le> ?k"
      using assms(2) by (simp add: defaultBufSize_def)
    let ?r' = "r\<lparr>src := pieces_Reader ps, nread := nread r + length p, bufd := ?acc @ p\<rparr>"
    have Fr: "fill r = ?r'" using F fit by simp
    have 1: "bufd ?r' @ concat ps = ?W" using W by simp
    have 2: "length (bufd ?r') \<le> length s" using True by simp
    have 3: "src ?r' = pieces_Reader ps" by simp
    have 4: "perr ?r' = None" using Cons.prems(5) by simp
    from Cons.IH [OF psne 1 2 3 4] show ?thesis
      unfolding RS Fr .
  next
    case False
    define N where "N = length ?acc + min ?k (length p)"
    define qs where "qs = (if length p \<le> ?k then ps else drop ?k p # ps)"
    have N: "length s < N"
      using False assms(2) Cons.prems(3) by (auto simp: N_def defaultBufSize_def min_def)
    have bf: "bufd (fill r) = ?acc @ take ?k p"
      using F by simp
    have sf: "src (fill r) = pieces_Reader qs"
      using F by (simp add: qs_def pieces_Reader_def)
    have pf: "perr (fill r) = None"
      using F Cons.prems(5) by simp
    have qne: "[] \<notin> set qs"
      using psne by (auto simp: qs_def)
    have "(?acc @ take ?k p) @ concat qs = ?acc @ (take ?k p @ drop ?k p) @ concat ps"
      by (simp add: qs_def)
    then have split: "?W = (?acc @ take ?k p) @ concat qs"
      using W by simp
    have len: "length (?acc @ take ?k p) = N"
      by (simp add: N_def min_def)
    from split [symmetric]
    have td: "?acc @ take ?k p = take (length (?acc @ take ?k p)) ?W
              \<and> concat qs = drop (length (?acc @ take ?k p)) ?W"
      by (simp only: append_eq_conv_conj)
    from td have "?acc @ take ?k p = take N ?W"
      unfolding len by (rule conjunct1)
    then have buf: "bufd (fill r) = s @ 0x0A # take (N - length s - 1) rest"
      unfolding bf using take_line [OF N] by simp
    from td have "concat qs = drop N ?W"
      unfolding len by (rule conjunct2)
    also have "\<dots> = drop (N - length s - 1) rest"
      using N by (simp add: drop_Cons')
    finally have cq: "concat qs = drop (N - length s - 1) rest" .
    let ?r1 = "(fill r)\<lparr>bufd := take (N - length s - 1) rest\<rparr>"
    have a: "ReadSlice r = (s @ [0x0A], None, ?r1)"
      unfolding RS by (rule ReadSlice_found [OF buf assms(1)])
    have b: "perr ?r1 = None" using pf by simp
    have c: "src ?r1 = pieces_Reader qs" using sf by simp
    have d: "bufd ?r1 @ concat qs = rest" using cq by simp
    from a b c qne d show ?thesis by blast
  qed
qed

lemma ReadLine_pieces_hd:
  assumes "perr r = None" and "src r = pieces_Reader qs" and "[] \<notin> set qs"
    and "bufd r @ concat qs = c # rest"
  shows "\<exists>line r'. ReadLine r = (line, None, r') \<and> (line = [] \<or> hd line = c)"
proof (cases "bufd r = []")
  case False
  then have "hd (bufd r) = c"
    using assms(4) by (cases "bufd r") auto
  with ReadLine_nonempty [OF False] show ?thesis by auto
next
  case True
  with assms(4) obtain q qs' where qs: "qs = q # qs'"
    by (cases qs) auto
  have qne: "q \<noteq> []" using assms(3) qs by auto
  have hq: "hd q = c"
    using assms(4) True qs qne by (cases q) auto
  have src: "src r = (q, None) # pieces_Reader qs'"
    using assms(2) qs by (simp add: pieces_Reader_def)
  have small: "length (bufd r) < defaultBufSize"
    using True by (simp add: defaultBufSize_def)
  note F = fill_piece [OF src qne small]
  have RS: "ReadSlice r = ReadSlice (fill r)"
    using True assms(1) by (subst ReadSlice.simps) (simp add: defaultBufSize_def)
  have RL: "ReadLine r = ReadLine (fill r)"
    by (simp add: ReadLine_def RS)
  have ne: "bufd (fill r) \<noteq> []"
    using F True qne by (auto simp: defaultBufSize_def)
  have "hd (bufd (fill r)) = c"
    using F True qne hq by (cases q) (auto simp: defaultBufSize_def)
  with ReadLine_nonempty [OF ne] show ?thesis
    unfolding RL by auto
qed

lemma read_text_no_digit_line:
  assumes "ReadLine r = (line, None, r')" and "line = [] \<or> \<not> is_digit (hd line)"
  shows "read_text L version m r = (nread r', None, m\<lparr>Vertices := [], Faces := []\<rparr>)"
proof -
  from assms(2) have "takeWhile is_digit line = []"
    by (rule takeWhile_no_digit)
  then show ?thesis
    by (simp add: read_text_def assms(1) Atoi_def Let_def)
qed

lemma ReadFrom_no_digit_pieces:
  assumes eol: "eol = [0x0A] \<or> eol = [0x0D, 0x0A]"
    and v: "v = Version1_00 \<or> v = Version1_01" and c: "\<not> is_digit c"
    and cat: "concat ps = Version_String v @ eol @ c # rest"
    and ne: "[] \<notin> set ps"
  shows "\<exists>n. ReadFrom L m (pieces_Reader ps) = (n, None, m\<lparr>Vertices := [], Faces := []\<rparr>)
           \<and> ReadFrom_part_000 L m (pieces_Reader ps)
              = (n, None, m\<lparr>Version := v, HasColor := False, Vertices := [], Faces := []\<rparr>)"
proof -
  let ?sig = "Version_String v"
  define s where "s = ?sig @ butlast eol"
  have eols: "?sig @ eol = s @ [0x0A]"
    using eol by (auto simp: s_def)
  have 1: "0x0A \<notin> set s"
    using eol no_newline_in_signature [of v] by (auto simp: s_def)
  have 2: "length s < 4000"
    using eol by (auto simp: s_def length_signature)
  let ?r = "NewReader (pieces_Reader ps)"
  have 3: "bufd ?r @ concat ps = s @ 0x0A # c # rest"
    using eols cat by (simp add: NewReader_def)
  have 4: "length (bufd ?r) \<le> length s" by (simp add: NewReader_def)
  have 5: "src ?r = pieces_Reader ps" by (simp add: NewReader_def)
  have 6: "perr ?r = None" by (simp add: NewReader_def)
  from line_pieces [OF 1 2 ne 3 4 5 6] obtain r1 qs where
    rs: "ReadSlice ?r = (s @ [0x0A], None, r1)"
    and p1: "perr r1 = None" and s1: "src r1 = pieces_Reader qs"
    and q1: "[] \<notin> set qs" and b1: "bufd r1 @ concat qs = c # rest"
    by blast
  have rs': "ReadSlice ?r = (?sig @ eol, None, r1)"
    using rs eols by simp
  have sne: "?sig \<noteq> []"
    using length_signature [of v] by auto
  have RL: "ReadLine ?r = (?sig, None, r1)"
    by (rule ReadLine_of_ReadSlice [OF rs' eol sne last_signature])
  from ReadLine_pieces_hd [OF p1 s1 q1 b1] obtain line r' where
    rl2: "ReadLine r1 = (line, None, r')" and hd: "line = [] \<or> hd line = c"
    by blast
  from hd c have nd: "line = [] \<or> \<not> is_digit (hd line)" by auto
  note rt = read_text_no_digit_line [OF rl2 nd, of L v]
  have vs: "VersionFromString ?sig = v"
    using v by (intro VersionFromString_String) auto
  have a: "ReadFrom L m (pieces_Reader ps) = (nread r', None, m\<lparr>Vertices := [], Faces := []\<rparr>)"
    unfolding ReadFrom_def RL using v vs rt [of m] by (auto simp: Let_def)
  have b: "ReadFrom_part_000 L m (pieces_Reader ps)
             = (nread r', None, m\<lparr>Version := v, HasColor := False, Vertices := [], Faces := []\<rparr>)"
    unfolding ReadFrom_part_000_def RL
    using v vs rt [of "m\<lparr>Version := v, HasColor := False\<rparr>"] by (auto simp: Let_def)
  from a b show ?thesis by blast
qed

text \<open>
  A reader that hands out one byte per \<open>Read\<close>: the line is put together over as many
  reads as it has bytes, and the buffer is empty when the line is returned.
\<close>

lemma ReadSlice_OneByteReader:
  assumes "0x0A \<notin> set (bufd r @ s)" and "length (bufd r) + length s < defaultBufSize"
    and "src r = OneByteReader (s @ 0x0A # rest)" and "perr r = None"
  shows "ReadSlice r =
           (bufd r @ s @ [0x0A], None,
            r\<lparr>src := OneByteReader rest, nread := nread r + length s + 1, bufd := []\<rparr>)"
  using assms
proof (induction s arbitrary: r)
  case Nil
  have src: "src r = ([0x0A], None) # OneByteReader rest"
    using Nil.prems(3) by (simp add: OneByteReader_def pieces_Reader_def)
  have small: "length (bufd r) < defaultBufSize" using Nil.prems(2) by simp
  have F: "fill r = r\<lparr>src := OneByteReader rest, nread := nread r + 1, bufd := bufd r @ [0x0A]\<rparr>"
    using fill_piece [OF src _ small] small by simp
  have RS: "ReadSlice r = ReadSlice (fill r)"
    using Nil.prems(1,4) small by (subst ReadSlice.simps) simp
  have b: "bufd (fill r) = bufd r @ 0x0A # []" using F by simp
  have n: "0x0A \<notin> set (bufd r)" using Nil.prems(1) by simp
  show ?case
    unfolding RS ReadSlice_found [OF b n] using F by simp
next
  case (Cons c s)
  have src: "src r = ([c], None) # OneByteReader (s @ 0x0A # rest)"
    using Cons.prems(3) by (simp add: OneByteReader_def pieces_Reader_def)
  have small: "length (bufd r) < defaultBufSize" using Cons.prems(2) by simp
  let ?r' = "r\<lparr>src := OneByteReader (s @ 0x0A # rest), nread := nread r + 1, bufd := bufd r @ [c]\<rparr>"
  have F: "fill r = ?r'"
    using fill_piece [OF src _ small] small by simp
  have RS: "ReadSlice r = ReadSlice (fill r)"
    using Cons.prems(1,4) small by (subst ReadSlice.simps) simp
  have 1: "0x0A \<notin> set (bufd ?r' @ s)" using Cons.prems(1) by simp
  have 2: "length (bufd ?r') + length s < defaultBufSize" using Cons.prems(2) by simp
  have 3: "src ?r' = OneByteReader (s @ 0x0A # rest)" by simp
  have 4: "perr ?r' = None" using Cons.prems(4) by simp
  show ?case
    unfolding RS F Cons.IH [OF 1 2 3 4] by simp
qed

lemma ReadFrom_OneByteReader_split_field:
  "ReadFrom L m (OneByteReader (bytes ''version 2.00\<newline>'' @ [12, 1]))
     = (15, Some UnexpectedVertexSize, m)"
proof -
  let ?sig = "Version_String Version2_00"
  let ?r = "NewReader (OneByteReader (?sig @ 0x0A # [12, 1]))"
  let ?r1 = "\<lparr>src = OneByteReader [12, 1], nread = 13, bufd = [], perr = None\<rparr>"
  have inp: "bytes ''version 2.00\<newline>'' @ [12, 1] = ?sig @ 0x0A # [12, 1]"
    by (simp add: signature_line)
  have 1: "0x0A \<notin> set (bufd ?r @ ?sig)"
    using no_newline_in_signature [of Version2_00] by (simp add: NewReader_def)
  have 2: "length (bufd ?r) + length ?sig < defaultBufSize"
    by (simp add: NewReader_def length_signature defaultBufSize_def)
  have 3: "src ?r = OneByteReader (?sig @ 0x0A # [12, 1])" by (simp add: NewReader_def)
  have 4: "perr ?r = None" by (simp add: NewReader_def)
  have rs: "ReadSlice ?r = (?sig @ [0x0A], None, ?r1)"
    unfolding ReadSlice_OneByteReader [OF 1 2 3 4]
    by (simp add: NewReader_def length_signature)
  have e: "[0x0A] = [0x0A :: byte] \<or> [0x0A] = [0x0D, 0x0A :: byte]" by simp
  have sne: "?sig \<noteq> []"
    using length_signature [of Version2_00] by auto
  have RL: "ReadLine ?r = (?sig, None, ?r1)"
    by (rule ReadLine_of_ReadSlice [OF rs e sne last_signature])
  have v: "VersionFromString ?sig = Version2_00"
    by (rule VersionFromString_String) simp
  have nv: "Version2_00 \<noteq> Version1_00" "Version2_00 \<noteq> Version1_01"
    by (simp_all add: version_defs)
  have RB: "read_binary L m ?r1 = (15, Some UnexpectedVertexSize, m)"
    by (simp add: read_binary_def read_into_def bufio_Read_def rr_Read_def OneByteReader_def
          pieces_Reader_def defaultBufSize_def nHeaderSize_def nHeader_def nVertex_def nColor_def
          Let_def Uint16_def replicate_nColor)
  show ?thesis
    unfolding inp ReadFrom_def RL using v nv RB by (simp add: Let_def)
qed

section \<open>Claims about the binary format\<close>

text \<open>
  Claim C1. For every mesh of version 2.00, encoding it with \<open>WriteTo\<close> and decoding the
  bytes with \<open>ReadFrom\<close> gives back the vertex list, the face list and the colour flag.
  The encoder writes the vertex-record size and the face-record size as two-byte fields
  (\<open>put16(b[2:4], ...)\<close>, \<open>put16(b[4:6], ...)\<close>); the decoder reads them as the single
  bytes \<open>b[2]\<close> and \<open>b[3]\<close>. So the decoder takes the high byte of the vertex-record
  size, which is 0, for the face-record size and rejects what the encoder wrote: the
  mesh of one vertex and one face below is encoded without error, and decoding the
  result, in either revision of \<open>ReadFrom\<close>, fails with "unexpected face size" and
  leaves the vertex list and the face list empty.
\<close>

theorem C1_binary_round_trip_fails:
  "fst (snd (WriteTo exampleLib ex_roundtrip_mesh emptyBuffer)) = None
   \<and> snd (ReadFrom exampleLib emptyMesh
             (bytes_Reader (wdata (snd (snd (WriteTo exampleLib ex_roundtrip_mesh emptyBuffer))))))
       = (Some UnexpectedFaceSize, emptyMesh)
   \<and> snd (ReadFrom_part_000 exampleLib emptyMesh
             (bytes_Reader (wdata (snd (snd (WriteTo exampleLib ex_roundtrip_mesh emptyBuffer))))))
       = (Some UnexpectedFaceSize, emptyMesh)
   \<and> Vertices emptyMesh \<noteq> Vertices ex_roundtrip_mesh"
proof -
  have v: "Version ex_roundtrip_mesh = Version2_00"
    by (simp add: ex_roundtrip_mesh_def)
  have w: "wroom emptyBuffer = None"
    by (simp add: emptyBuffer_def)
  have m: "emptyMesh\<lparr>HasColor := HasColor ex_roundtrip_mesh\<rparr> = emptyMesh"
    "emptyMesh\<lparr>Version := Version2_00, HasColor := HasColor ex_roundtrip_mesh\<rparr> = emptyMesh"
    by (simp_all add: emptyMesh_def ex_roundtrip_mesh_def)
  from WriteTo_binary_unlimited [OF v w, of exampleLib]
  have 1: "fst (snd (WriteTo exampleLib ex_roundtrip_mesh emptyBuffer)) = None"
    by auto
  from binary_round_trip_fails [OF v, of exampleLib emptyMesh]
  have 2: "snd (ReadFrom exampleLib emptyMesh
             (bytes_Reader (wdata (snd (snd (WriteTo exampleLib ex_roundtrip_mesh emptyBuffer))))))
       = (Some UnexpectedFaceSize, emptyMesh)"
    and 3: "snd (ReadFrom_part_000 exampleLib emptyMesh
             (bytes_Reader (wdata (snd (snd (WriteTo exampleLib ex_roundtrip_mesh emptyBuffer))))))
       = (Some UnexpectedFaceSize, emptyMesh)"
    unfolding m by auto
  have 4: "Vertices emptyMesh \<noteq> Vertices ex_roundtrip_mesh"
    by (simp add: emptyMesh_def ex_roundtrip_mesh_def)
  from 1 2 3 4 show ?thesis by blast
qed

text \<open>
  Claim C6, as stated: on a binary input whose header-size field is not 12, \<open>ReadFrom\<close>
  fails with "unexpected header size" and the count it returns is exactly the number of
  bytes up to and including that field. Two things in the code stand against it. The
  counter sits under the buffered reader and counts what the buffer has taken from the
  reader: on the in-memory input below, the signature line, the field \<open>13\<close> and one more
  byte, the field ends at byte 15 and the count is 16. And the decoder asks for the two
  bytes of the field with one \<open>buf.Read(b)\<close> and drops the number of bytes it got: from
  a reader that hands out one byte per read it gets the first byte only, the second stays
  0 in \<open>b\<close>, so the field \<open>12, 1\<close>, which is 268, is taken for 12 and the decoder goes on
  to fail at the next field with "unexpected vertex size".
\<close>

theorem C6_counterexample:
  "ReadFrom exampleLib emptyMesh (bytes_Reader (bytes ''version 2.00\<newline>'' @ [13, 0, 0]))
     = (16, Some UnexpectedHeaderSize, emptyMesh)
   \<and> length (bytes ''version 2.00\<newline>'' @ [13, 0]) = 15
   \<and> ReadFrom exampleLib emptyMesh (OneByteReader (bytes ''version 2.00\<newline>'' @ [12, 1]))
     = (15, Some UnexpectedVertexSize, emptyMesh)
   \<and> unat (Uint16 [12, 1] 0) = 268"
proof -
  have "unat (Uint16 [13, 0] 0) \<noteq> nHeader"
    by (simp add: Uint16_def nHeader_def nHeaderSize_def)
  from ReadFrom_header_size(1) [OF this, of exampleLib emptyMesh "[0]"]
  have 1: "ReadFrom exampleLib emptyMesh (bytes_Reader (bytes ''version 2.00\<newline>'' @ [13, 0, 0]))
     = (16, Some UnexpectedHeaderSize, emptyMesh)"
    by simp
  have 2: "length (bytes ''version 2.00\<newline>'' @ [13, 0]) = 15"
    by (simp add: bytes_def)
  have 3: "unat (Uint16 [12, 1] 0) = 268"
    by (simp add: Uint16_def)
  from 1 2 3 ReadFrom_OneByteReader_split_field [of exampleLib emptyMesh]
  show ?thesis by simp
qed

text \<open>
  Claim C6, amended. The input is the signature line \<open>version 2.00\<close>, ended by a newline
  or by a carriage return and a newline, a two-byte little-endian header-size field other
  than 12, and anything after it; the reader hands it out in the non-empty pieces \<open>ps\<close>,
  one per read and without error, and no piece ends between the two bytes of the field.
  Then \<open>ReadFrom\<close> (either revision) fails with "unexpected header size", and the count
  it returns, the number of bytes the buffered reader has taken from the reader by then,
  is at least the number of bytes up to and including the field and at most the length of
  the input. An in-memory reader is the case of a single piece, and there the count is the
  whole input up to the 4096 bytes of the buffer.
\<close>

theorem C6_header_size_rejected:
  assumes "eol = [0x0A] \<or> eol = [0x0D, 0x0A]"
    and "unat (Uint16 [lo, hi] 0) \<noteq> nHeader"
    and "concat ps = bytes ''version 2.00'' @ eol @ lo # hi # rest"
    and "[] \<notin> set ps"
    and "\<forall>k\<le>length ps. length (concat (take k ps)) \<noteq> length (bytes ''version 2.00'' @ eol @ [lo])"
  shows "\<exists>n. ReadFrom L m (pieces_Reader ps) = (n, Some UnexpectedHeaderSize, m)
           \<and> ReadFrom_part_000 L m (pieces_Reader ps)
               = (n, Some UnexpectedHeaderSize, m\<lparr>Version := Version2_00\<rparr>)
           \<and> length (bytes ''version 2.00'' @ eol @ [lo, hi]) \<le> n
           \<and> n \<le> length (concat ps)
           \<and> (length ps = 1 \<longrightarrow> n = min 4096 (length (concat ps)))"
proof -
  have s: "bytes ''version 2.00'' = Version_String Version2_00"
    by (simp add: version_defs)
  from ReadFrom_header_size_pieces [OF assms(1,2) assms(3) [unfolded s] assms(4) assms(5) [unfolded s],
      of L m]
  obtain n where
    a: "ReadFrom L m (pieces_Reader ps) = (n, Some UnexpectedHeaderSize, m)"
    and b: "ReadFrom_part_000 L m (pieces_Reader ps)
               = (n, Some UnexpectedHeaderSize, m\<lparr>Version := Version2_00\<rparr>)"
    and c: "length (bytes ''version 2.00'' @ eol @ [lo, hi]) \<le> n"
    and d: "n \<le> length (concat ps)"
    unfolding s by blast
  have e: "n = min 4096 (length (concat ps))" if one: "length ps = 1"
  proof -
    from one obtain input where ps: "ps = [input]"
      by (cases ps) auto
    have inp: "input = bytes ''version 2.00'' @ eol @ lo # hi # rest"
      using assms(3) ps by simp
    then have "input \<noteq> []" by (simp add: bytes_def)
    then have "pieces_Reader ps = bytes_Reader input"
      unfolding ps by (rule pieces_Reader_one)
    with a have "ReadFrom L m (bytes_Reader input) = (n, Some UnexpectedHeaderSize, m)"
      by simp
    with ReadFrom_header_size_eol(1) [OF assms(1,2), of L m rest]
    show ?thesis unfolding inp ps by simp
  qed
  from a b c d e show ?thesis by blast
qed

theorem C6_witness:
  "([0x0D, 0x0A] = [0x0A :: byte] \<or> [0x0D, 0x0A] = [0x0D, 0x0A :: byte])
   \<and> unat (Uint16 [13, 0] 0) \<noteq> nHeader
   \<and> concat [bytes ''version 2.00'' @ [0x0D], [0x0A, 13, 0, 7], [7, 7]]
       = bytes ''version 2.00'' @ [0x0D, 0x0A] @ 13 # 0 # [7, 7, 7]
   \<and> (\<exists>n. ReadFrom exampleLib emptyMesh
              (pieces_Reader [bytes ''version 2.00'' @ [0x0D], [0x0A, 13, 0, 7], [7, 7]])
              = (n, Some UnexpectedHeaderSize, emptyMesh)
            \<and> 16 \<le> n \<and> n \<le> 19)
   \<and> ReadFrom exampleLib emptyMesh
        (pieces_Reader [bytes ''version 2.00'' @ [0x0D, 0x0A] @ 13 # 0 # [7, 7, 7]])
       = (19, Some UnexpectedHeaderSize, emptyMesh)"
proof -
  let ?ps = "[bytes ''version 2.00'' @ [0x0D], [0x0A, 13, 0, 7], [7, 7 :: byte]]"
  let ?input = "bytes ''version 2.00'' @ [0x0D, 0x0A] @ 13 # 0 # [7, 7, 7 :: byte]"
  have e: "[0x0D, 0x0A] = [0x0A :: byte] \<or> [0x0D, 0x0A] = [0x0D, 0x0A :: byte]"
    by simp
  have h: "unat (Uint16 [13, 0] 0) \<noteq> nHeader"
    by (simp add: Uint16_def nHeader_def nHeaderSize_def)
  have c: "concat ?ps = ?input"
    by simp
  have ne: "[] \<notin> set ?ps"
    by (simp add: bytes_def)
  have nb: "\<forall>k\<le>length ?ps. length (concat (take k ?ps))
              \<noteq> length (bytes ''version 2.00'' @ [0x0D, 0x0A] @ [13])"
    by (auto simp: bytes_def take_Cons' le_Suc_eq)
  have c1: "concat [?input] = ?input"
    by simp
  have ne1: "[] \<notin> set [?input]"
    by (simp add: bytes_def)
  have nb1: "\<forall>k\<le>length [?input]. length (concat (take k [?input]))
              \<noteq> length (bytes ''version 2.00'' @ [0x0D, 0x0A] @ [13])"
    by (auto simp: bytes_def take_Cons' le_Suc_eq)
  from C6_header_size_rejected [OF e h c ne nb, of exampleLib emptyMesh]
  have A: "\<exists>n. ReadFrom exampleLib emptyMesh (pieces_Reader ?ps)
              = (n, Some UnexpectedHeaderSize, emptyMesh) \<and> 16 \<le> n \<and> n \<le> 19"
    by (auto simp: bytes_def)
  from C6_header_size_rejected [OF e h c1 ne1 nb1, of exampleLib emptyMesh]
  have B: "ReadFrom exampleLib emptyMesh (pieces_Reader [?input])
             = (19, Some UnexpectedHeaderSize, emptyMesh)"
    by (auto simp: bytes_def)
  from e h c A B show ?thesis by simp
qed

section \<open>Claims about the text formats\<close>

text \<open>
  Claim C4. After a successful \<open>ReadFrom\<close> of an input whose signature line is
  \<open>version 1.00\<close> or \<open>version 1.01\<close> the colour flag of the mesh is false, whatever it
  was before. The revision of \<open>ReadFrom\<close> in \<open>src/unnamed/part_000\<close> sets
  \<open>m.HasColor = false\<close> at the head of the text path (lemma
  \<open>ReadFrom_part_000_text_fields\<close>); the revision in \<open>src/mesh.go\<close> has no such
  statement and never writes the flag on that path (lemma \<open>ReadFrom_text_fields\<close>).
  Decoding the file of zero faces \<open>version 1.00\<close>, \<open>0\<close> into a mesh whose flag is set
  succeeds in both; \<open>src/mesh.go\<close> leaves the flag set, the other revision clears it.
\<close>

theorem C4_text_decode_keeps_color_flag:
  "ReadFrom exampleLib ex_colored_mesh (bytes_Reader (bytes ''version 1.00\<newline>0\<newline>''))
     = (15, None, ex_colored_mesh)
   \<and> HasColor ex_colored_mesh = True
   \<and> ReadFrom_part_000 exampleLib ex_colored_mesh
       (bytes_Reader (bytes ''version 1.00\<newline>0\<newline>''))
       = (15, None, ex_colored_mesh\<lparr>Version := Version1_00, HasColor := False\<rparr>)"
proof -
  have s: "bytes ''version 1.00\<newline>0\<newline>'' = Version_String Version1_00 @ bytes ''\<newline>0\<newline>''"
    by (simp add: version_defs bytes_def)
  have m: "ex_colored_mesh\<lparr>Vertices := [], Faces := []\<rparr> = ex_colored_mesh"
    by (simp add: ex_colored_mesh_def)
  show ?thesis
    unfolding s
    using ReadFrom_zero_faces [of Version1_00 exampleLib ex_colored_mesh]
    by (simp add: ex_colored_mesh_def)
qed

text \<open>
  Claim C10. On an input of version 1.00 or 1.01 whose second line begins with a
  character that is not a digit, \<open>ReadFrom\<close> does not fail: the run of digits is empty,
  \<open>strconv.Atoi\<close> gives 0 with an error that is dropped, and the decode succeeds with an
  empty face list and an empty vertex list. Both revisions; the input is the signature
  line, ended by a newline or by a carriage return and a newline, then the character
  \<open>c\<close> and anything after it, and the reader hands it out in the non-empty pieces
  \<open>ps\<close>, cut anywhere (an in-memory reader is the case of a single piece).
\<close>

theorem C10_non_digit_count_line:
  assumes "eol = [0x0A] \<or> eol = [0x0D, 0x0A]"
    and "v = Version1_00 \<or> v = Version1_01" and "\<not> is_digit c"
    and "concat ps = Version_String v @ eol @ c # rest" and "[] \<notin> set ps"
  shows "Atoi (takeWhile is_digit (c # line)) = 0
       \<and> (\<exists>n. ReadFrom L m (pieces_Reader ps)
                 = (n, None, m\<lparr>Vertices := [], Faces := []\<rparr>)
              \<and> ReadFrom_part_000 L m (pieces_Reader ps)
                 = (n, None, m\<lparr>Version := v, HasColor := False, Vertices := [], Faces := []\<rparr>))"
  using ReadFrom_no_digit_pieces [OF assms, of L m] assms(3) by (simp add: Atoi_def)

theorem C10_witness:
  "([0x0A] = [0x0A :: byte] \<or> [0x0A] = [0x0D, 0x0A :: byte])
   \<and> (Version1_01 = Version1_00 \<or> Version1_01 = Version1_01)
   \<and> \<not> is_digit 0x78
   \<and> concat [bytes ''version 1.01\<newline>'', bytes ''x12\<newline>'']
       = Version_String Version1_01 @ [0x0A] @ 0x78 # bytes ''12\<newline>''
   \<and> [] \<notin> set [bytes ''version 1.01\<newline>'', bytes ''x12\<newline>'']
   \<and> (\<exists>n. ReadFrom exampleLib ex_colored_mesh
              (pieces_Reader [bytes ''version 1.01\<newline>'', bytes ''x12\<newline>''])
              = (n, None, ex_colored_mesh))
   \<and> (\<exists>n. ReadFrom exampleLib ex_colored_mesh
              (bytes_Reader (bytes ''version 1.01\<newline>x12\<newline>''))
              = (n, None, ex_colored_mesh))"
proof -
  let ?ps = "[bytes ''version 1.01\<newline>'', bytes ''x12\<newline>'']"
  let ?input = "bytes ''version 1.01\<newline>x12\<newline>''"
  have e: "[0x0A] = [0x0A :: byte] \<or> [0x0A] = [0x0D, 0x0A :: byte]" by simp
  have d: "\<not> is_digit 0x78" by (simp add: is_digit_def)
  have s: "concat ?ps = Version_String Version1_01 @ [0x0A] @ 0x78 # bytes ''12\<newline>''"
    by (simp add: version_defs bytes_def)
  have ne: "[] \<notin> set ?ps"
    by (simp add: bytes_def)
  have s1: "concat [?input] = Version_String Version1_01 @ [0x0A] @ 0x78 # bytes ''12\<newline>''"
    by (simp add: version_defs bytes_def)
  have ne1: "[] \<notin> set [?input]"
    by (simp add: bytes_def)
  have m: "ex_colored_mesh\<lparr>Vertices := [], Faces := []\<rparr> = ex_colored_mesh"
    by (simp add: ex_colored_mesh_def)
  have one: "pieces_Reader [?input] = bytes_Reader ?input"
    by (rule pieces_Reader_one) (simp add: bytes_def)
  from C10_non_digit_count_line [OF e _ d s ne, of "[]" exampleLib ex_colored_mesh]
  have A: "\<exists>n. ReadFrom exampleLib ex_colored_mesh (pieces_Reader ?ps) = (n, None, ex_colored_mesh)"
    unfolding m by auto
  from C10_non_digit_count_line [OF e _ d s1 ne1, of "[]" exampleLib ex_colored_mesh]
  have B: "\<exists>n. ReadFrom exampleLib ex_colored_mesh (bytes_Reader ?input) = (n, None, ex_colored_mesh)"
    unfolding m one by auto
  from d s ne A B show ?thesis by simp
qed

text \<open>
  Claim C9. After a successful decode of a text-format input, every index of every face
  lies in \<open>[0, len(m.Vertices))\<close>: an index is either the one stored with a key found in
  the map or the size of the map at the moment the key is added, and the vertex list has
  one entry per key. Both revisions of \<open>ReadFrom\<close>; \<open>input\<close> is any reader, and
  \<open>fmt.Fscanf\<close> any function of the buffered reader.
\<close>

theorem C9_text_decode_indices_in_range:
  assumes "input_version input = Version1_00 \<or> input_version input = Version1_01"
    and "ReadFrom L m input = (n, None, m') \<or> ReadFrom_part_000 L m input = (n, None, m')"
  shows "list_all (in_range m') (face_corners (Faces m'))"
proof -
  from ReadFrom_text_body [OF assms] obtain m1 where
    "read_text L (input_version input) m1 (snd (snd (ReadLine (NewReader input)))) = (n, None, m')"
    by blast
  then show ?thesis by (rule read_text_in_range)
qed

theorem C9_witness:
  "(input_version (bytes_Reader ex_text_input) = Version1_00 \<or> input_version (bytes_Reader ex_text_input) = Version1_01)
   \<and> ReadFrom exampleLib emptyMesh (bytes_Reader ex_text_input)
       = (78, None, emptyMesh\<lparr>Faces := [(0, 1, 0)], Vertices := [ex_vertex_a, ex_vertex_b]\<rparr>)
   \<and> list_all (in_range (emptyMesh\<lparr>Faces := [(0, 1, 0)], Vertices := [ex_vertex_a, ex_vertex_b]\<rparr>))
         (face_corners [(0, 1, 0)])"
proof -
  have v: "input_version (bytes_Reader ex_text_input) = Version1_00 \<or> input_version (bytes_Reader ex_text_input) = Version1_01"
    by (simp add: ex_text_version)
  have d: "ReadFrom exampleLib emptyMesh (bytes_Reader ex_text_input)
       = (78, None, emptyMesh\<lparr>Faces := [(0, 1, 0)], Vertices := [ex_vertex_a, ex_vertex_b]\<rparr>)"
    by (rule ex_text_decode)
  from C9_text_decode_indices_in_range [OF v disjI1, OF d] v d
  show ?thesis by simp
qed

text \<open>
  Claim C3, as stated: the text decoder keeps one vertex entry per distinct vertex
  value, in first-occurrence order, and two corners of bit-identical content share one
  entry. The key of the map is compared with Go's \<open>==\<close>, under which a NaN equals
  nothing. The three corners of the file below are the same text, \<open>[NaN,0,0][0,0,0][0,0,0]\<close>,
  and the same vertex value; the decode succeeds with three vertex entries and the
  face \<open>(0, 1, 2)\<close>.
\<close>

theorem C3_counterexample:
  "ReadFrom exampleLib emptyMesh (bytes_Reader ex_nan_input)
     = (84, None, emptyMesh\<lparr>Faces := [(0, 1, 2)],
                             Vertices := [ex_vertex_nan, ex_vertex_nan, ex_vertex_nan]\<rparr>)
   \<and> text_corners exampleLib (bytes_Reader ex_nan_input) = [ex_vertex_nan, ex_vertex_nan, ex_vertex_nan]"
  by (simp add: ex_nan_decode ex_nan_corners)

text \<open>
  Claim C3, amended: on a text-format input that decodes successfully and on whose corner
  values Go's \<open>==\<close> agrees with identity of value (no component is a NaN, and no two
  values differ only in the sign of a zero), the vertex list holds each distinct
  post-processed vertex value exactly once, in the order of first occurrence in the corner
  stream, and every face corner stores the index of its value in that list, so corners of
  identical content share one entry. Both revisions of \<open>ReadFrom\<close>; \<open>input\<close> is
  any reader. The condition holds whenever no component of a corner value is a NaN or
  the negative zero (lemma \<open>plain_corners_agree\<close>).
\<close>

theorem C3_text_decode_interns_vertices:
  assumes "input_version input = Version1_00 \<or> input_version input = Version1_01"
    and "ReadFrom L m input = (n, None, m') \<or> ReadFrom_part_000 L m input = (n, None, m')"
    and "\<forall>u\<in>set (text_corners L input). \<forall>v\<in>set (text_corners L input). vertex_eq u v = (u = v)"
  shows "Vertices m' = first_occurrences (text_corners L input)
       \<and> distinct (Vertices m') \<and> set (Vertices m') = set (text_corners L input)
       \<and> list_all (in_range m') (face_corners (Faces m'))
       \<and> map (\<lambda>i. Vertices m' ! nat i) (face_corners (Faces m')) = text_corners L input"
proof -
  from ReadFrom_text_body [OF assms(1,2)] obtain m1 where
    rt: "read_text L (input_version input) m1 (snd (snd (ReadLine (NewReader input)))) = (n, None, m')"
    by blast
  from read_text_pure [OF rt] obtain line r1 cs r2 verts idxs where
    rl: "ReadLine (snd (snd (ReadLine (NewReader input)))) = (line, None, r1)"
    and cs: "corner_stream L (input_version input) (3 * Atoi (takeWhile is_digit line)) r1 = (cs, r2)"
    and ia: "intern_all [] cs = (verts, idxs)"
    and V: "Vertices m' = map fst verts" and F: "face_corners (Faces m') = idxs"
    by blast
  have tc: "text_corners L input = cs"
    using text_corners_read_text [OF rl, of L] cs by simp
  have H: "\<forall>u\<in>set [] \<union> set cs. \<forall>w\<in>set [] \<union> set cs. vertex_eq u w = (u = w)"
    using assms(3) tc by simp
  from intern_all_spec [OF ordered_Nil _ H ia]
  have k: "map fst verts = first_occurrences cs"
    and r: "list_all (\<lambda>i. 0 \<le> i \<and> nat i < length verts) idxs"
    and nn: "map (\<lambda>i. map fst verts ! nat i) idxs = cs"
    by auto
  have ir: "list_all (in_range m') (face_corners (Faces m'))"
    using rt by (rule read_text_in_range)
  have 1: "Vertices m' = first_occurrences cs" using V k by simp
  have 2: "map (\<lambda>i. Vertices m' ! nat i) (face_corners (Faces m')) = cs"
    unfolding 1 F using nn k by simp
  show ?thesis
    unfolding tc using 1 2 ir by simp
qed

theorem C3_witness:
  "(input_version (bytes_Reader ex_text_input) = Version1_00 \<or> input_version (bytes_Reader ex_text_input) = Version1_01)
   \<and> ReadFrom exampleLib emptyMesh (bytes_Reader ex_text_input)
       = (78, None, emptyMesh\<lparr>Faces := [(0, 1, 0)], Vertices := [ex_vertex_a, ex_vertex_b]\<rparr>)
   \<and> text_corners exampleLib (bytes_Reader ex_text_input) = [ex_vertex_a, ex_vertex_b, ex_vertex_a]
   \<and> vertex_eq ex_vertex_a ex_vertex_a \<and> vertex_eq ex_vertex_b ex_vertex_b
   \<and> \<not> vertex_eq ex_vertex_a ex_vertex_b \<and> \<not> vertex_eq ex_vertex_b ex_vertex_a
   \<and> ex_vertex_a \<noteq> ex_vertex_b
   \<and> first_occurrences [ex_vertex_a, ex_vertex_b, ex_vertex_a] = [ex_vertex_a, ex_vertex_b]
   \<and> map (\<lambda>i. [ex_vertex_a, ex_vertex_b] ! nat i) (face_corners [(0, 1, 0)])
       = [ex_vertex_a, ex_vertex_b, ex_vertex_a]"
proof -
  have v: "input_version (bytes_Reader ex_text_input) = Version1_00 \<or> input_version (bytes_Reader ex_text_input) = Version1_01"
    by (simp add: ex_text_version)
  have d: "ReadFrom exampleLib emptyMesh (bytes_Reader ex_text_input)
       = (78, None, emptyMesh\<lparr>Faces := [(0, 1, 0)], Vertices := [ex_vertex_a, ex_vertex_b]\<rparr>)"
    by (rule ex_text_decode)
  have H: "\<forall>u\<in>set (text_corners exampleLib (bytes_Reader ex_text_input)).
             \<forall>v\<in>set (text_corners exampleLib (bytes_Reader ex_text_input)). vertex_eq u v = (u = v)"
    using ex_vertex_eq by (auto simp: ex_text_corners)
  note T = C3_text_decode_interns_vertices [OF v disjI1 H, OF d]
  from T [THEN conjunct1]
  have A: "first_occurrences [ex_vertex_a, ex_vertex_b, ex_vertex_a] = [ex_vertex_a, ex_vertex_b]"
    by (simp add: ex_text_corners)
  from T [THEN conjunct2, THEN conjunct2, THEN conjunct2, THEN conjunct2]
  have B: "map (\<lambda>i. [ex_vertex_a, ex_vertex_b] ! nat i) (face_corners [(0, 1, 0)])
           = [ex_vertex_a, ex_vertex_b, ex_vertex_a]"
    by (simp add: ex_text_corners)
  from A B v d ex_text_corners ex_vertex_eq show ?thesis by simp
qed

end
